theory Spec2Isabelle
  imports Complex_Main
begin

section \<open>Data model of \<^verbatim>\<open>isaac_like.cpp\<close>\<close>

text \<open>
  A shallow embedding of the game logic of \<^verbatim>\<open>isaac_like.cpp\<close>: the dungeon generator,
  the room populator, the per-tick systems and the run controller. Rendering and window
  handling are left out. Conventions:

  \<^item> \<^verbatim>\<open>float\<close> values are modelled as \<open>real\<close>: rounding, overflow and NaN are not
    modelled. C++ \<^verbatim>\<open>int\<close> values are \<open>int\<close>; the values the program computes stay far
    inside the 32-bit range.
  \<^item> The global variables are the fields of the record \<open>Game\<close>; the function-local
    \<^verbatim>\<open>static float hurtCD\<close> of \<^verbatim>\<open>playerHitCheck\<close> is the field \<open>hurtCD\<close>.
  \<^item> \<^verbatim>\<open>g_dungeon[y][x]\<close> is \<open>g_dungeon s (x, y)\<close>. Only the cells with
    \<open>inb x y\<close> are part of the C++ array.
  \<^item> The random engine is an oracle: the list of raw draws still to come.
  \<^item> The keyboard (\<^verbatim>\<open>GetAsyncKeyState\<close>) is a predicate on keys, given per call.
\<close>

abbreviation WIDTH :: int where "WIDTH \<equiv> 960"
abbreviation HEIGHT :: int where "HEIGHT \<equiv> 540"
abbreviation GRID_W :: int where "GRID_W \<equiv> 5"
abbreviation GRID_H :: int where "GRID_H \<equiv> 5"
abbreviation ROOM_W :: int where "ROOM_W \<equiv> 720"
abbreviation ROOM_H :: int where "ROOM_H \<equiv> 400"
abbreviation ROOM_X :: int where "ROOM_X \<equiv> (WIDTH - ROOM_W) div 2"
abbreviation ROOM_Y :: int where "ROOM_Y \<equiv> (HEIGHT - ROOM_H) div 2"
abbreviation DOOR_W :: int where "DOOR_W \<equiv> 80"
abbreviation DOOR_H :: int where "DOOR_H \<equiv> 18"

record Vec =
  vx :: real
  vy :: real

definition mkVec :: "real \<Rightarrow> real \<Rightarrow> Vec" where
  "mkVec X Y = \<lparr>vx = X, vy = Y\<rparr>"

definition vadd :: "Vec \<Rightarrow> Vec \<Rightarrow> Vec" where
  "vadd a b = mkVec (vx a + vx b) (vy a + vy b)"

definition vsub :: "Vec \<Rightarrow> Vec \<Rightarrow> Vec" where
  "vsub a b = mkVec (vx a - vx b) (vy a - vy b)"

definition vmul :: "Vec \<Rightarrow> real \<Rightarrow> Vec" where
  "vmul a s = mkVec (vx a * s) (vy a * s)"

definition dot :: "Vec \<Rightarrow> Vec \<Rightarrow> real" where
  "dot a b = vx a * vx b + vy a * vy b"

definition len :: "Vec \<Rightarrow> real" where
  "len a = sqrt (dot a a)"

definition norm_vec :: "Vec \<Rightarrow> Vec" where
  "norm_vec a = (let L = len a in if L > 0 then vmul a (1 / L) else mkVec 0 0)"

definition clamp :: "real \<Rightarrow> real \<Rightarrow> real \<Rightarrow> real" where
  "clamp v lo hi = (if v < lo then lo else (if v > hi then hi else v))"

text \<open>The conversion \<^verbatim>\<open>int(f)\<close> of a float truncates toward zero.\<close>

definition trunc :: "real \<Rightarrow> int" where
  "trunc f = (if f \<ge> 0 then \<lfloor>f\<rfloor> else \<lceil>f\<rceil>)"

datatype Dir = Up | Right | Down | Left

text \<open>The value of \<^verbatim>\<open>(int)d\<close>.\<close>

fun dir_int :: "Dir \<Rightarrow> nat" where
  "dir_int Up = 0"
| "dir_int Right = 1"
| "dir_int Down = 2"
| "dir_int Left = 3"

record Bullet =
  b_p :: Vec
  b_v :: Vec
  b_r :: real
  b_ttl :: real
  b_dead :: bool

record Enemy =
  e_p :: Vec
  e_r :: real
  e_hp :: real
  e_speed :: real
  e_kind :: int
  e_patrolDir :: Vec
  e_dead :: bool

text \<open>\<open>doors\<close> is the array \<^verbatim>\<open>bool doors[4]\<close>, read at the indices \<open>dir_int d\<close>.\<close>

record Room =
  exists :: bool
  cleared :: bool
  boss :: bool
  doors :: "nat \<Rightarrow> bool"
  enemies :: "Enemy list"

record Player =
  pl_p :: Vec
  pl_r :: real
  pl_speed :: real
  hp :: int
  shots :: "Bullet list"
  shotCooldown :: real

text \<open>The default member initialisers: \<^verbatim>\<open>Bullet{}\<close>, \<^verbatim>\<open>Enemy{}\<close>, \<^verbatim>\<open>Room{}\<close>, \<^verbatim>\<open>Player{}\<close>.\<close>

definition Bullet0 :: Bullet where
  "Bullet0 = \<lparr>b_p = mkVec 0 0, b_v = mkVec 0 0, b_r = 4, b_ttl = 11 / 10, b_dead = False\<rparr>"

definition Enemy0 :: Enemy where
  "Enemy0 = \<lparr>e_p = mkVec 0 0, e_r = 12, e_hp = 2, e_speed = 55, e_kind = 0,
     e_patrolDir = mkVec 1 0, e_dead = False\<rparr>"

definition Room0 :: Room where
  "Room0 = \<lparr>exists = False, cleared = False, boss = False, doors = (\<lambda>_. False), enemies = []\<rparr>"

definition Player0 :: Player where
  "Player0 = \<lparr>pl_p = mkVec 0 0, pl_r = 12, pl_speed = 125, hp = 6, shots = [],
     shotCooldown = 0\<rparr>"

subsection \<open>The random source\<close>

text \<open>
  \<open>eng\<close> holds the raw draws of the engine that are still to come (an exhausted list
  keeps answering 0). \<open>randint a b\<close> is some integer of \<open>[a, b]\<close> and \<open>randf a b\<close> some
  value of \<open>[a, b)\<close>; every value of the range is the answer for a suitable draw.
  \<open>shuffle\<close> swaps each position with a random earlier one, so that every permutation
  is the answer for suitable draws.
\<close>

record RNG =
  eng :: "nat list"

definition draw :: "RNG \<Rightarrow> nat \<times> RNG" where
  "draw g = (case eng g of [] \<Rightarrow> (0, g) | r # rs \<Rightarrow> (r, g\<lparr>eng := rs\<rparr>))"

definition randint :: "int \<Rightarrow> int \<Rightarrow> RNG \<Rightarrow> int \<times> RNG" where
  "randint a b g = (let (r, g') = draw g in (a + int (r mod nat (b - a + 1)), g'))"

definition randf :: "real \<Rightarrow> real \<Rightarrow> RNG \<Rightarrow> real \<times> RNG" where
  "randf a b g =
     (let (r, g') = draw g in (a + (b - a) * (real (r mod 2 ^ 24) / 2 ^ 24), g'))"

definition swap :: "nat \<Rightarrow> nat \<Rightarrow> 'a list \<Rightarrow> 'a list" where
  "swap i j xs = xs[i := xs ! j, j := xs ! i]"

definition shuffle_step :: "nat \<Rightarrow> 'a list \<times> RNG \<Rightarrow> 'a list \<times> RNG" where
  "shuffle_step i = (\<lambda>(xs, g). let (j, g') = randint 0 (int i) g in (swap i (nat j) xs, g'))"

definition shuffle :: "'a list \<Rightarrow> RNG \<Rightarrow> 'a list \<times> RNG" where
  "shuffle xs g = fold shuffle_step [1 ..< length xs] (xs, g)"

subsection \<open>The global state\<close>

type_synonym Dungeon = "int \<times> int \<Rightarrow> Room"

record Game =
  g_dungeon :: Dungeon
  g_rx :: int
  g_ry :: int
  g_startx :: int
  g_starty :: int
  g_runOver :: bool
  g_allCleared :: bool
  g_rng :: RNG
  g_player :: Player
  hurtCD :: real
  g_running :: bool

text \<open>The cells of the grid in the order of the loops
  \<^verbatim>\<open>for (y = 0; y < GRID_H; ++y) for (x = 0; x < GRID_W; ++x)\<close>.\<close>

definition cells :: "(int \<times> int) list" where
  "cells = concat (map (\<lambda>y. map (\<lambda>x. (x, y)) [0 .. GRID_W - 1]) [0 .. GRID_H - 1])"

section \<open>Dungeon generation: \<^verbatim>\<open>carveDungeon\<close>\<close>

definition inb :: "int \<Rightarrow> int \<Rightarrow> bool" where
  "inb X Y \<longleftrightarrow> X \<ge> 0 \<and> Y \<ge> 0 \<and> X < GRID_W \<and> Y < GRID_H"

text \<open>The neighbour \<^verbatim>\<open>(nx, ny)\<close> of a cell in direction \<open>d\<close>.\<close>

definition nbr :: "int \<times> int \<Rightarrow> Dir \<Rightarrow> int \<times> int" where
  "nbr c d = (fst c + (if d = Right then 1 else (if d = Left then - 1 else 0)),
              snd c + (if d = Down then 1 else (if d = Up then - 1 else 0)))"

text \<open>The four assignments under \<^verbatim>\<open>// carve\<close>.\<close>

definition carve :: "Dungeon \<Rightarrow> int \<times> int \<Rightarrow> Dir \<Rightarrow> int \<times> int \<Rightarrow> Dungeon" where
  "carve dg cur d n =
     (let dg1 = dg(cur := (dg cur)\<lparr>exists := True\<rparr>);
          dg2 = dg1(n := (dg1 n)\<lparr>exists := True\<rparr>);
          dg3 = dg2(cur := (dg2 cur)\<lparr>doors := (doors (dg2 cur))(dir_int d := True)\<rparr>);
          dg4 = dg3(n := (dg3 n)\<lparr>doors := (doors (dg3 n))((dir_int d + 2) mod 4 := True)\<rparr>)
      in dg4)"

text \<open>The loop \<^verbatim>\<open>for (Dir d : dirs)\<close>: the first direction that leads to a free cell in
  bounds is carved; \<open>None\<close> is \<^verbatim>\<open>extended == false\<close>.\<close>

fun tryDirs :: "Dungeon \<Rightarrow> int \<times> int \<Rightarrow> Dir list \<Rightarrow> (Dungeon \<times> (int \<times> int)) option" where
  "tryDirs dg cur [] = None"
| "tryDirs dg cur (d # ds) =
     (let n = nbr cur d in
      if \<not> inb (fst n) (snd n) \<or> exists (dg n) then tryDirs dg cur ds
      else Some (carve dg cur d n, n))"

text \<open>The state of the carving loop. The top of \<^verbatim>\<open>stack\<close> is the head of the list.\<close>

record Carve =
  c_dg :: Dungeon
  c_stack :: "(int \<times> int) list"
  c_order :: "(int \<times> int) list"
  c_made :: int
  c_rng :: RNG

definition carveStep :: "Carve \<Rightarrow> Carve" where
  "carveStep st =
     (let cur = hd (c_stack st);
          (dirs, rng') = shuffle [Up, Right, Down, Left] (c_rng st)
      in case tryDirs (c_dg st) cur dirs of
           Some (dg', n) \<Rightarrow>
             st\<lparr>c_dg := dg', c_stack := n # c_stack st, c_order := c_order st @ [n],
                c_made := c_made st + 1, c_rng := rng'\<rparr>
         | None \<Rightarrow> st\<lparr>c_stack := tl (c_stack st), c_rng := rng'\<rparr>)"

function carveLoop :: "int \<Rightarrow> Carve \<Rightarrow> Carve" where
  "carveLoop targetRooms st =
     (if c_made st < targetRooms \<and> c_stack st \<noteq> [] then carveLoop targetRooms (carveStep st)
      else st)"
  by pat_completeness auto
termination
proof (relation "measure (\<lambda>(t, st). 2 * nat (t - c_made st) + length (c_stack st))")
  show "wf (measure (\<lambda>(t, st). 2 * nat (t - c_made st) + length (c_stack st)))"
    by simp
next
  fix targetRooms :: int and st :: Carve
  assume "c_made st < targetRooms \<and> c_stack st \<noteq> []"
  then show "((targetRooms, carveStep st), (targetRooms, st))
      \<in> measure (\<lambda>(t, st). 2 * nat (t - c_made st) + length (c_stack st))"
    by (auto simp: carveStep_def Let_def split: prod.splits option.splits)
qed

declare carveLoop.simps [simp del]

text \<open>The lambda \<^verbatim>\<open>dist\<close>, the squared distance to the start cell, and the scan for the boss
  room.\<close>

definition dist_sq :: "int \<Rightarrow> int \<Rightarrow> int \<times> int \<Rightarrow> int" where
  "dist_sq sx sy c = (let dx = fst c - sx; dy = snd c - sy in dx * dx + dy * dy)"

definition bossStep :: "Dungeon \<Rightarrow> int \<Rightarrow> int \<Rightarrow> int \<times> int \<Rightarrow> (int \<times> int) \<times> int \<Rightarrow> (int \<times> int) \<times> int" where
  "bossStep dg sx sy c = (\<lambda>(b, best).
     if \<not> exists (dg c) then (b, best)
     else (let d = dist_sq sx sy c in if d > best then (c, d) else (b, best)))"

definition bossScan :: "Dungeon \<Rightarrow> int \<Rightarrow> int \<Rightarrow> int \<times> int" where
  "bossScan dg sx sy = fst (fold (bossStep dg sx sy) cells ((sx, sy), - 1))"

section \<open>Room population: \<^verbatim>\<open>spawnEnemies\<close>\<close>

text \<open>One pass of the loop body for index \<open>i\<close>. The two \<^verbatim>\<open>randf\<close> calls are the
  arguments of one constructor call; they are taken from left to right.\<close>

definition spawnOne :: "bool \<Rightarrow> int \<Rightarrow> Enemy list \<times> RNG \<Rightarrow> Enemy list \<times> RNG" where
  "spawnOne isBoss i = (\<lambda>(es, g).
     let (px, g1) = randf (real_of_int (ROOM_X + 40)) (real_of_int (ROOM_X + ROOM_W - 40)) g;
         (py, g2) = randf (real_of_int (ROOM_Y + 40)) (real_of_int (ROOM_Y + ROOM_H - 40)) g1;
         e1 = Enemy0\<lparr>e_p := mkVec px py\<rparr>;
         (k, g3) = (if isBoss then (i mod 2, g2) else randint 0 1 g2);
         e2 = e1\<lparr>e_kind := k\<rparr>;
         e3 = (if isBoss then e2\<lparr>e_hp := 4, e_r := 14, e_speed := 70\<rparr> else e2)
     in (es @ [e3], g3))"

definition spawnEnemies :: "Room \<Rightarrow> RNG \<Rightarrow> Room \<times> RNG" where
  "spawnEnemies R g =
     (let R1 = R\<lparr>enemies := []\<rparr>;
          (count0, g1) = randint 2 5 g;
          count = (if boss R1 then 6 else count0);
          (es, g2) = fold (spawnOne (boss R1)) [0 .. count - 1] (enemies R1, g1);
          R2 = R1\<lparr>enemies := es\<rparr>
      in (R2\<lparr>cleared := (enemies R2 = [])\<rparr>, g2))"

definition populateStep :: "int \<Rightarrow> int \<Rightarrow> int \<times> int \<Rightarrow> Dungeon \<times> RNG \<Rightarrow> Dungeon \<times> RNG" where
  "populateStep sx sy c = (\<lambda>(dg, g).
     if exists (dg c) then
       (if fst c = sx \<and> snd c = sy then (dg(c := (dg c)\<lparr>cleared := True\<rparr>), g)
        else (let (R', g') = spawnEnemies (dg c) g in (dg(c := R'), g')))
     else (dg, g))"

text \<open>\<^verbatim>\<open>carveDungeon\<close> in its four parts. \<open>carveRooms\<close> is \<^verbatim>\<open>// Reset\<close> and
  \<^verbatim>\<open>// Random DFS\<close>; it gives \<^verbatim>\<open>targetRooms\<close> and the state the loop ends in.\<close>

definition carveRooms :: "Dungeon \<Rightarrow> RNG \<Rightarrow> int \<times> Carve" where
  "carveRooms dg g =
     (let dg0 = fold (\<lambda>c dg. dg(c := Room0)) cells dg;
          (targetRooms, rng1) = randint 6 9 g;
          cx = GRID_W div 2; cy = GRID_H div 2;
          dg1 = dg0((cx, cy) := (dg0 (cx, cy))\<lparr>exists := True\<rparr>)
      in (targetRooms,
          carveLoop targetRooms
            \<lparr>c_dg = dg1, c_stack = [(cx, cy)], c_order = [(cx, cy)], c_made = 1, c_rng = rng1\<rparr>))"

text \<open>\<^verbatim>\<open>// Boss room = farthest from start among existing\<close>.\<close>

definition markBoss :: "int \<Rightarrow> int \<Rightarrow> Dungeon \<Rightarrow> Dungeon" where
  "markBoss sx sy dg = (let b = bossScan dg sx sy in dg(b := (dg b)\<lparr>boss := True\<rparr>))"

text \<open>\<^verbatim>\<open>// Populate enemies\<close>.\<close>

definition populate :: "int \<Rightarrow> int \<Rightarrow> Dungeon \<times> RNG \<Rightarrow> Dungeon \<times> RNG" where
  "populate sx sy = fold (populateStep sx sy) cells"

definition carveDungeon :: "Game \<Rightarrow> Game" where
  "carveDungeon s =
     (let (targetRooms, st) = carveRooms (g_dungeon s) (g_rng s);
          s1 = s\<lparr>g_startx := GRID_W div 2, g_starty := GRID_H div 2\<rparr>;
          dg2 = markBoss (g_startx s1) (g_starty s1) (c_dg st);
          (dg3, rng3) = populate (g_startx s1) (g_starty s1) (dg2, c_rng st)
      in s1\<lparr>g_dungeon := dg3, g_rng := rng3\<rparr>)"

definition resetRun :: "Game \<Rightarrow> Game" where
  "resetRun s =
     (let s1 = carveDungeon s;
          s2 = s1\<lparr>g_rx := g_startx s1, g_ry := g_starty s1\<rparr>;
          s3 = s2\<lparr>g_player := Player0\<rparr>;
          s4 = s3\<lparr>g_player := (g_player s3)
                  \<lparr>pl_p := mkVec (real_of_int ROOM_X + real_of_int ROOM_W / 2)
                                  (real_of_int ROOM_Y + real_of_int ROOM_H / 2)\<rparr>\<rparr>
      in s4\<lparr>g_runOver := False, g_allCleared := False\<rparr>)"

section \<open>The per-tick systems\<close>

datatype Key = VK_W | VK_A | VK_S | VK_D | VK_UP | VK_DOWN | VK_LEFT | VK_RIGHT | VK_R | VK_ESCAPE

type_synonym Keys = "Key \<Rightarrow> bool"

record RECT =
  rc_left :: int
  rc_top :: int
  rc_right :: int
  rc_bottom :: int

fun doorRect :: "Dir \<Rightarrow> RECT" where
  "doorRect Up = \<lparr>rc_left = ROOM_X + (ROOM_W - DOOR_W) div 2, rc_top = ROOM_Y - 2,
     rc_right = ROOM_X + (ROOM_W + DOOR_W) div 2, rc_bottom = ROOM_Y + DOOR_H\<rparr>"
| "doorRect Down = \<lparr>rc_left = ROOM_X + (ROOM_W - DOOR_W) div 2, rc_top = ROOM_Y + ROOM_H - DOOR_H,
     rc_right = ROOM_X + (ROOM_W + DOOR_W) div 2, rc_bottom = ROOM_Y + ROOM_H + 2\<rparr>"
| "doorRect Left = \<lparr>rc_left = ROOM_X - 2, rc_top = ROOM_Y + (ROOM_H - DOOR_W) div 2,
     rc_right = ROOM_X + DOOR_H, rc_bottom = ROOM_Y + (ROOM_H + DOOR_W) div 2\<rparr>"
| "doorRect Right = \<lparr>rc_left = ROOM_X + ROOM_W - DOOR_H, rc_top = ROOM_Y + (ROOM_H - DOOR_W) div 2,
     rc_right = ROOM_X + ROOM_W + 2, rc_bottom = ROOM_Y + (ROOM_H + DOOR_W) div 2\<rparr>"

text \<open>The Win32 call \<^verbatim>\<open>InflateRect(&rc, dx, dy)\<close>.\<close>

definition InflateRect :: "RECT \<Rightarrow> int \<Rightarrow> int \<Rightarrow> RECT" where
  "InflateRect rc dx dy = \<lparr>rc_left = rc_left rc - dx, rc_top = rc_top rc - dy,
     rc_right = rc_right rc + dx, rc_bottom = rc_bottom rc + dy\<rparr>"

definition circleRectOverlap :: "Vec \<Rightarrow> real \<Rightarrow> RECT \<Rightarrow> bool" where
  "circleRectOverlap c r rc =
     (let nx = clamp (vx c) (real_of_int (rc_left rc)) (real_of_int (rc_right rc));
          ny = clamp (vy c) (real_of_int (rc_top rc)) (real_of_int (rc_bottom rc));
          dx = vx c - nx; dy = vy c - ny
      in dx * dx + dy * dy \<le> r * r)"

subsection \<open>Player input\<close>

definition playerUpdateMove :: "Keys \<Rightarrow> real \<Rightarrow> Game \<Rightarrow> Game" where
  "playerUpdateMove keys dt s =
     (let mv0 = mkVec 0 0;
          mv1 = (if keys VK_W then mv0\<lparr>vy := vy mv0 - 1\<rparr> else mv0);
          mv2 = (if keys VK_S then mv1\<lparr>vy := vy mv1 + 1\<rparr> else mv1);
          mv3 = (if keys VK_A then mv2\<lparr>vx := vx mv2 - 1\<rparr> else mv2);
          mv4 = (if keys VK_D then mv3\<lparr>vx := vx mv3 + 1\<rparr> else mv3);
          mv = (if vx mv4 \<noteq> 0 \<or> vy mv4 \<noteq> 0 then norm_vec mv4 else mv4);
          P = g_player s;
          p1 = vadd (pl_p P) (vmul (vmul mv (pl_speed P)) dt);
          p2 = p1\<lparr>vx := clamp (vx p1) (real_of_int (ROOM_X + 20 + trunc (pl_r P)))
                                       (real_of_int (ROOM_X + ROOM_W - 20 - trunc (pl_r P)))\<rparr>;
          p3 = p2\<lparr>vy := clamp (vy p2) (real_of_int (ROOM_Y + 20 + trunc (pl_r P)))
                                       (real_of_int (ROOM_Y + ROOM_H - 20 - trunc (pl_r P)))\<rparr>
      in s\<lparr>g_player := P\<lparr>pl_p := p3\<rparr>\<rparr>)"

definition playerShoot :: "Vec \<Rightarrow> Game \<Rightarrow> Game" where
  "playerShoot dir s =
     (let P = g_player s in
      if shotCooldown P > 0 then s
      else (let b = Bullet0\<lparr>b_p := vadd (pl_p P) (vmul dir (pl_r P + 6)),
                            b_v := vmul dir 360, b_r := 5, b_ttl := 9 / 10\<rparr>
            in s\<lparr>g_player := P\<lparr>shots := shots P @ [b], shotCooldown := 12 / 100\<rparr>\<rparr>))"

definition playerShootInput :: "Keys \<Rightarrow> Game \<Rightarrow> Game" where
  "playerShootInput keys s =
     (let d0 = mkVec 0 0;
          d1 = (if keys VK_UP then d0\<lparr>vy := vy d0 - 1\<rparr> else d0);
          d2 = (if keys VK_DOWN then d1\<lparr>vy := vy d1 + 1\<rparr> else d1);
          d3 = (if keys VK_LEFT then d2\<lparr>vx := vx d2 - 1\<rparr> else d2);
          d4 = (if keys VK_RIGHT then d3\<lparr>vx := vx d3 + 1\<rparr> else d3)
      in if vx d4 \<noteq> 0 \<or> vy d4 \<noteq> 0 then playerShoot (norm_vec d4) s else s)"

subsection \<open>\<^verbatim>\<open>updateEnemies\<close>\<close>

text \<open>The body of the loop over the enemies, for one enemy; \<open>pp\<close> is the player's position.\<close>

definition enemyMove :: "Vec \<Rightarrow> real \<Rightarrow> Enemy \<Rightarrow> Enemy" where
  "enemyMove pp dt e =
     (if e_dead e then e
      else
       (let toP = vsub pp (e_p e);
            d = len toP;
            e1 = (if e_kind e = 0 then
                    e\<lparr>e_p := vadd (e_p e) (vmul (vmul (norm_vec toP) (e_speed e)) dt)\<rparr>
                  else
                   (let a = e\<lparr>e_p := vadd (e_p e)
                                 (vmul (vmul (e_patrolDir e) (e_speed e * (75 / 100))) dt)\<rparr>;
                        b = (if vx (e_p a) < real_of_int (ROOM_X + 30)
                                \<or> vx (e_p a) > real_of_int (ROOM_X + ROOM_W - 30)
                             then a\<lparr>e_patrolDir := (e_patrolDir a)\<lparr>vx := vx (e_patrolDir a) * (- 1)\<rparr>\<rparr>
                             else a);
                        c = (if vy (e_p b) < real_of_int (ROOM_Y + 30)
                                \<or> vy (e_p b) > real_of_int (ROOM_Y + ROOM_H - 30)
                             then b\<lparr>e_patrolDir := (e_patrolDir b)\<lparr>vy := vy (e_patrolDir b) * (- 1)\<rparr>\<rparr>
                             else b)
                    in if d < 180
                       then c\<lparr>e_p := vadd (e_p c)
                                 (vmul (vmul (norm_vec toP) (e_speed c * (4 / 10))) dt)\<rparr>
                       else c));
            e2 = e1\<lparr>e_p := (e_p e1)\<lparr>vx := clamp (vx (e_p e1))
                       (real_of_int (ROOM_X + 20 + trunc (e_r e1)))
                       (real_of_int (ROOM_X + ROOM_W - 20 - trunc (e_r e1)))\<rparr>\<rparr>;
            e3 = e2\<lparr>e_p := (e_p e2)\<lparr>vy := clamp (vy (e_p e2))
                       (real_of_int (ROOM_Y + 20 + trunc (e_r e2)))
                       (real_of_int (ROOM_Y + ROOM_H - 20 - trunc (e_r e2)))\<rparr>\<rparr>
        in e3))"

text \<open>\<open>c\<close> is the cell of the room \<^verbatim>\<open>R\<close> the function is called on.\<close>

definition updateEnemies :: "int \<times> int \<Rightarrow> real \<Rightarrow> Game \<Rightarrow> Game" where
  "updateEnemies c dt s =
     (let R = g_dungeon s c;
          es1 = map (enemyMove (pl_p (g_player s)) dt) (enemies R);
          es2 = filter (\<lambda>e. \<not> e_dead e) es1;
          R1 = R\<lparr>enemies := es2\<rparr>
      in if enemies R1 \<noteq> [] then s\<lparr>g_dungeon := (g_dungeon s)(c := R1)\<rparr>
         else s\<lparr>g_dungeon := (g_dungeon s)(c := R1\<lparr>cleared := True\<rparr>)\<rparr>)"

subsection \<open>\<^verbatim>\<open>updateBullets\<close>\<close>

text \<open>The inner loop \<^verbatim>\<open>// hit enemies\<close>: the first live enemy the bullet overlaps takes
  the hit, and the loop ends there.\<close>

fun hitEnemies :: "Bullet \<Rightarrow> Enemy list \<Rightarrow> Bullet \<times> Enemy list" where
  "hitEnemies b [] = (b, [])"
| "hitEnemies b (e # es) =
     (if e_dead e then (let (b', es') = hitEnemies b es in (b', e # es'))
      else
       (let dx = vx (b_p b) - vx (e_p e); dy = vy (b_p b) - vy (e_p e);
            rr0 = b_r b + e_r e; rr = rr0 * rr0
        in if dx * dx + dy * dy \<le> rr then
             (let e1 = e\<lparr>e_hp := e_hp e - 1\<rparr>;
                  b1 = b\<lparr>b_dead := True\<rparr>;
                  e2 = (if e_hp e1 \<le> 0 then e1\<lparr>e_dead := True\<rparr> else e1)
              in (b1, e2 # es))
           else (let (b', es') = hitEnemies b es in (b', e # es'))))"

definition bulletStep :: "real \<Rightarrow> Bullet \<Rightarrow> Enemy list \<Rightarrow> Bullet \<times> Enemy list" where
  "bulletStep dt b es =
     (if b_dead b then (b, es)
      else
       (let b1 = b\<lparr>b_p := vadd (b_p b) (vmul (b_v b) dt)\<rparr>;
            b2 = b1\<lparr>b_ttl := b_ttl b1 - dt\<rparr>;
            b3 = (if b_ttl b2 \<le> 0 then b2\<lparr>b_dead := True\<rparr> else b2);
            b4 = (if vx (b_p b3) < real_of_int (ROOM_X + 20)
                     \<or> vx (b_p b3) > real_of_int (ROOM_X + ROOM_W - 20)
                     \<or> vy (b_p b3) < real_of_int (ROOM_Y + 20)
                     \<or> vy (b_p b3) > real_of_int (ROOM_Y + ROOM_H - 20)
                  then b3\<lparr>b_dead := True\<rparr> else b3)
        in hitEnemies b4 es))"

fun bulletsLoop :: "real \<Rightarrow> Bullet list \<Rightarrow> Enemy list \<Rightarrow> Bullet list \<times> Enemy list" where
  "bulletsLoop dt [] es = ([], es)"
| "bulletsLoop dt (b # bs) es =
     (let (b', es') = bulletStep dt b es;
          (bs', es'') = bulletsLoop dt bs es'
      in (b' # bs', es''))"

definition updateBullets :: "int \<times> int \<Rightarrow> real \<Rightarrow> Game \<Rightarrow> Game" where
  "updateBullets c dt s =
     (let R = g_dungeon s c;
          P = g_player s;
          (bs, es) = bulletsLoop dt (shots P) (enemies R)
      in s\<lparr>g_dungeon := (g_dungeon s)(c := R\<lparr>enemies := es\<rparr>),
           g_player := P\<lparr>shots := filter (\<lambda>b. \<not> b_dead b) bs\<rparr>\<rparr>)"

subsection \<open>\<^verbatim>\<open>playerHitCheck\<close>\<close>

definition overlaps :: "Player \<Rightarrow> Enemy \<Rightarrow> bool" where
  "overlaps P e =
     (let dx = vx (pl_p P) - vx (e_p e); dy = vy (pl_p P) - vy (e_p e);
          rr0 = pl_r P + e_r e; rr = rr0 * rr0
      in dx * dx + dy * dy \<le> rr)"

text \<open>The damage branch \<^verbatim>\<open>if (hurtCD <= 0.f) { ... }\<close>.\<close>

definition hurt :: "Enemy \<Rightarrow> Game \<Rightarrow> Game" where
  "hurt e s =
     (let P = g_player s;
          P1 = P\<lparr>hp := hp P - 1\<rparr>;
          s1 = s\<lparr>g_player := P1, hurtCD := 9 / 10\<rparr>;
          kb = norm_vec (vsub (pl_p P1) (e_p e));
          s2 = s1\<lparr>g_player := P1\<lparr>pl_p := vadd (pl_p P1) (vmul kb 20)\<rparr>\<rparr>
      in if hp (g_player s2) \<le> 0 then s2\<lparr>g_runOver := True\<rparr> else s2)"

text \<open>The body of the loop over the enemies, for one enemy.\<close>

definition hitStep :: "real \<Rightarrow> Enemy \<Rightarrow> Game \<Rightarrow> Game" where
  "hitStep dt e s =
     (if e_dead e then s
      else if overlaps (g_player s) e then
        (let s1 = (if hurtCD s \<le> 0 then hurt e s else s)
         in s1\<lparr>hurtCD := max 0 (hurtCD s1 - dt)\<rparr>)
      else s)"

definition playerHitCheck :: "int \<times> int \<Rightarrow> real \<Rightarrow> Game \<Rightarrow> Game" where
  "playerHitCheck c dt s = fold (hitStep dt) (enemies (g_dungeon s c)) s"

subsection \<open>\<^verbatim>\<open>handleDoorsAndTransitions\<close>\<close>

text \<open>The lambda \<^verbatim>\<open>tryGo\<close>; the result is its return value and the state it leaves.\<close>

definition tryGo :: "Room \<Rightarrow> Dir \<Rightarrow> int \<Rightarrow> int \<Rightarrow> Vec \<Rightarrow> Game \<Rightarrow> bool \<times> Game" where
  "tryGo R d nx ny newPos s =
     (if \<not> doors R (dir_int d) then (False, s)
      else
       (let rc = InflateRect (doorRect d) 10 10 in
        if circleRectOverlap (pl_p (g_player s)) (pl_r (g_player s)) rc
        then (True, s\<lparr>g_rx := nx, g_ry := ny, g_player := (g_player s)\<lparr>pl_p := newPos\<rparr>\<rparr>)
        else (False, s)))"

definition handleDoorsAndTransitions :: "int \<times> int \<Rightarrow> Game \<Rightarrow> Game" where
  "handleDoorsAndTransitions c s =
     (let R = g_dungeon s c in
      if \<not> cleared R then s
      else
       (let (r1, s1) =
              (if doors R (dir_int Up) \<and> g_ry s > 0 \<and> exists (g_dungeon s (g_rx s, g_ry s - 1))
               then tryGo R Up (g_rx s) (g_ry s - 1)
                      (mkVec (real_of_int ROOM_X + real_of_int ROOM_W / 2)
                             (real_of_int (ROOM_Y + ROOM_H - 60))) s
               else (False, s))
        in if r1 then s1 else
       (let (r2, s2) =
              (if doors R (dir_int Down) \<and> g_ry s1 < GRID_H - 1
                  \<and> exists (g_dungeon s1 (g_rx s1, g_ry s1 + 1))
               then tryGo R Down (g_rx s1) (g_ry s1 + 1)
                      (mkVec (real_of_int ROOM_X + real_of_int ROOM_W / 2)
                             (real_of_int (ROOM_Y + 60))) s1
               else (False, s1))
        in if r2 then s2 else
       (let (r3, s3) =
              (if doors R (dir_int Left) \<and> g_rx s2 > 0 \<and> exists (g_dungeon s2 (g_rx s2 - 1, g_ry s2))
               then tryGo R Left (g_rx s2 - 1) (g_ry s2)
                      (mkVec (real_of_int (ROOM_X + ROOM_W - 60))
                             (real_of_int ROOM_Y + real_of_int ROOM_H / 2)) s2
               else (False, s2))
        in if r3 then s3 else
       (let (r4, s4) =
              (if doors R (dir_int Right) \<and> g_rx s3 < GRID_W - 1
                  \<and> exists (g_dungeon s3 (g_rx s3 + 1, g_ry s3))
               then tryGo R Right (g_rx s3 + 1) (g_ry s3)
                      (mkVec (real_of_int (ROOM_X + 60))
                             (real_of_int ROOM_Y + real_of_int ROOM_H / 2)) s3
               else (False, s3))
        in s4)))))"

subsection \<open>\<^verbatim>\<open>checkAllCleared\<close> and the fixed update loop\<close>

definition clearedStep :: "Dungeon \<Rightarrow> int \<times> int \<Rightarrow> bool \<times> bool \<Rightarrow> bool \<times> bool" where
  "clearedStep dg c = (\<lambda>(any, allclear).
     if \<not> exists (dg c) then (any, allclear)
     else (True, if \<not> cleared (dg c) then False else allclear))"

definition checkAllCleared :: "Game \<Rightarrow> Game" where
  "checkAllCleared s =
     (let (any, allclear) = fold (clearedStep (g_dungeon s)) cells (False, True);
          s1 = s\<lparr>g_allCleared := any \<and> allclear\<rparr>
      in if g_allCleared s1 \<and> \<not> g_runOver s1 then s1\<lparr>g_runOver := True\<rparr> else s1)"

text \<open>The step size \<^verbatim>\<open>dt = 1.0 / 120.0\<close> of \<^verbatim>\<open>WinMain\<close>.\<close>

abbreviation DT :: real where "DT \<equiv> 1 / 120"

text \<open>One pass of the body of \<^verbatim>\<open>while (acc >= dt)\<close>: one simulation tick. The reference
  \<^verbatim>\<open>R\<close> is taken once, before the systems run. \<open>beforeHit\<close> is the part of the body from
  \<^verbatim>\<open>playerUpdateMove\<close> to \<^verbatim>\<open>updateBullets\<close>; \<open>tick\<close> is the whole body.\<close>

definition beforeHit :: "Keys \<Rightarrow> Game \<Rightarrow> Game" where
  "beforeHit keys s =
     (let c = (g_rx s, g_ry s);
          s1 = playerUpdateMove keys DT s;
          s2 = playerShootInput keys s1;
          s3 = (if shotCooldown (g_player s2) > 0
                then s2\<lparr>g_player := (g_player s2)\<lparr>shotCooldown := shotCooldown (g_player s2) - DT\<rparr>\<rparr>
                else s2);
          s4 = updateEnemies c DT s3;
          s5 = updateBullets c DT s4
      in s5)"

definition tick :: "Keys \<Rightarrow> Game \<Rightarrow> Game" where
  "tick keys s =
     (if \<not> g_runOver s then
        (let c = (g_rx s, g_ry s);
             s5 = beforeHit keys s;
             s6 = playerHitCheck c DT s5;
             s7 = handleDoorsAndTransitions c s6;
             s8 = checkAllCleared s7
         in if hp (g_player s8) \<le> 0 then s8\<lparr>g_runOver := True\<rparr> else s8)
      else s)"

text \<open>The two key checks of the frame loop of \<^verbatim>\<open>WinMain\<close>, before the fixed update loop:
  \<^verbatim>\<open>ESC\<close> leaves the loop, \<^verbatim>\<open>R\<close> restarts.\<close>

definition frameInput :: "Keys \<Rightarrow> Game \<Rightarrow> Game" where
  "frameInput keys s =
     (if keys VK_ESCAPE then s\<lparr>g_running := False\<rparr>
      else if g_runOver s \<and> keys VK_R then resetRun s
      else s)"

text \<open>The run state as \<^verbatim>\<open>drawHUD\<close> shows it: no banner while the run is on, the death
  banner when \<^verbatim>\<open>g_player.hp <= 0\<close>, the floor-cleared banner otherwise.\<close>

datatype RunState = Active | Cleared | Dead

definition runState :: "Game \<Rightarrow> RunState" where
  "runState s = (if \<not> g_runOver s then Active
                 else if hp (g_player s) \<le> 0 then Dead else Cleared)"

text \<open>The values of the globals when \<^verbatim>\<open>WinMain\<close> starts, for an engine seeded to give the
  draws \<open>rs\<close>.\<close>

definition initGame :: "nat list \<Rightarrow> Game" where
  "initGame rs = \<lparr>g_dungeon = (\<lambda>_. Room0), g_rx = GRID_W div 2, g_ry = GRID_H div 2,
     g_startx = 0, g_starty = 0, g_runOver = False, g_allCleared = False,
     g_rng = \<lparr>eng = rs\<rparr>, g_player = Player0, hurtCD = 0, g_running = True\<rparr>"

section \<open>Notions used in the properties\<close>

text \<open>The live enemies of a list that overlap the player, in list order: the enemies for
  which the loop of \<^verbatim>\<open>playerHitCheck\<close> enters its \<^verbatim>\<open>if (dx * dx + dy * dy <= rr)\<close> branch
  as long as the player is not moved.\<close>

definition touching :: "Player \<Rightarrow> Enemy list \<Rightarrow> Enemy list" where
  "touching P es = filter (\<lambda>e. \<not> e_dead e \<and> overlaps P e) es"

section \<open>States used in the examples\<close>

text \<open>The player stands between two live enemies of the current room, and both overlap
  it; \<open>t\<close> is the value of the invulnerability timer.\<close>

definition contactGame :: "real \<Rightarrow> Game" where
  "contactGame t = (initGame [])
     \<lparr>g_dungeon := (\<lambda>c. Room0)((2, 2) := Room0
         \<lparr>exists := True,
          enemies := [Enemy0\<lparr>e_p := mkVec 470 270\<rparr>, Enemy0\<lparr>e_p := mkVec 490 270\<rparr>]\<rparr>),
      g_player := Player0\<lparr>pl_p := mkVec 480 270\<rparr>,
      hurtCD := t\<rparr>"

text \<open>The player stands in the upper door of the start room, which leads to an existing
  room; the start room still has a live enemy, far from the player, and is not cleared.\<close>

definition lockedGame :: Game where
  "lockedGame = (initGame [])
     \<lparr>g_dungeon := (\<lambda>c. Room0)
        ((2, 2) := Room0\<lparr>exists := True, doors := (\<lambda>i. i = dir_int Up),
                         enemies := [Enemy0\<lparr>e_p := mkVec 480 350, e_kind := 1\<rparr>]\<rparr>,
         (2, 1) := Room0\<lparr>exists := True, doors := (\<lambda>i. i = dir_int Down),
                         enemies := [Enemy0\<lparr>e_p := mkVec 300 200\<rparr>]\<rparr>),
      g_startx := 2, g_starty := 2,
      g_player := Player0\<lparr>pl_p := mkVec 480 102\<rparr>\<rparr>"

text \<open>No key is down.\<close>

definition idle :: Keys where
  "idle = (\<lambda>k. False)"

section \<open>The room graph\<close>

text \<open>The rooms of the grid that exist, as a set of cells.\<close>

definition existing :: "Dungeon \<Rightarrow> (int \<times> int) set" where
  "existing dg = {c. inb (fst c) (snd c) \<and> exists (dg c)}"

text \<open>The opposite direction.\<close>

fun opposite :: "Dir \<Rightarrow> Dir" where
  "opposite Up = Down"
| "opposite Right = Left"
| "opposite Down = Up"
| "opposite Left = Right"

text \<open>The door connections: an edge leads from an existing room through each of its doors
  to the neighbouring cell in that direction.\<close>

definition adj :: "Dungeon \<Rightarrow> ((int \<times> int) \<times> (int \<times> int)) set" where
  "adj dg = {(c, c'). c \<in> existing dg \<and> (\<exists>d. doors (dg c) (dir_int d) \<and> c' = nbr c d)}"

text \<open>Every existing room is reached from the start cell along door connections.\<close>

definition connected_from :: "Dungeon \<Rightarrow> int \<times> int \<Rightarrow> bool" where
  "connected_from dg start \<longleftrightarrow> (\<forall>c \<in> existing dg. (start, c) \<in> (adj dg)\<^sup>*)"

text \<open>A cycle of an undirected graph, given as a symmetric relation: at least three distinct
  vertices, each joined to the next and the last one to the first.\<close>

definition has_cycle :: "('a \<times> 'a) set \<Rightarrow> bool" where
  "has_cycle E \<longleftrightarrow>
     (\<exists>vs. 3 \<le> length vs \<and> distinct vs
        \<and> (\<forall>i < length vs. (vs ! i, vs ! (Suc i mod length vs)) \<in> E))"

text \<open>The cell \<open>b\<close> is an existing room at the largest squared distance from the start cell,
  and the first such room in the order of the scan: the existing rooms scanned before it are
  strictly nearer, the ones scanned after it are not farther.\<close>

definition first_farthest :: "Dungeon \<Rightarrow> int \<Rightarrow> int \<Rightarrow> (int \<times> int) list \<Rightarrow> int \<times> int \<Rightarrow> bool" where
  "first_farthest dg sx sy cs b \<longleftrightarrow>
     (\<exists>pre post. cs = pre @ b # post \<and> exists (dg b)
        \<and> (\<forall>c \<in> set pre. exists (dg c) \<longrightarrow> dist_sq sx sy c < dist_sq sx sy b)
        \<and> (\<forall>c \<in> set post. exists (dg c) \<longrightarrow> dist_sq sx sy c \<le> dist_sq sx sy b))"

text \<open>The invariant of the carving loop, for the start cell \<open>start\<close> and the requested number
  of rooms \<open>targetRooms\<close>.\<close>

definition carveInv :: "int \<times> int \<Rightarrow> int \<Rightarrow> Carve \<Rightarrow> bool" where
  "carveInv start targetRooms st \<longleftrightarrow>
     start \<in> existing (c_dg st)
   \<and> set (c_stack st) \<subseteq> existing (c_dg st)
   \<and> (\<forall>c d. inb (fst c) (snd c) \<longrightarrow> doors (c_dg st c) (dir_int d) \<longrightarrow>
          c \<in> existing (c_dg st) \<and> nbr c d \<in> existing (c_dg st)
        \<and> doors (c_dg st (nbr c d)) (dir_int (opposite d)))
   \<and> connected_from (c_dg st) start
   \<and> \<not> has_cycle (adj (c_dg st))
   \<and> int (card (existing (c_dg st))) = c_made st
   \<and> c_made st \<le> max 1 targetRooms
   \<and> (c_stack st = [] \<longrightarrow> 2 \<le> c_made st)
   \<and> (\<forall>c. inb (fst c) (snd c) \<longrightarrow>
          \<not> boss (c_dg st c) \<and> \<not> cleared (c_dg st c) \<and> enemies (c_dg st c) = [])"

text \<open>A running game with a wounded player: \<open>lockedGame\<close> with hp 3.\<close>

definition woundedGame :: Game where
  "woundedGame = lockedGame\<lparr>g_player := (g_player lockedGame)\<lparr>hp := 3\<rparr>\<rparr>"

text \<open>A grid whose existing rooms are the six cells of the scenario of the boss selection.\<close>

definition scenarioDungeon :: Dungeon where
  "scenarioDungeon = (\<lambda>c. Room0\<lparr>exists := (c \<in> {(2, 2), (3, 2), (3, 1), (2, 1), (2, 0), (1, 1)})\<rparr>)"

section \<open>The states the program reaches\<close>

text \<open>\<^verbatim>\<open>WinMain\<close> calls \<^verbatim>\<open>resetRun\<close> on the initial values of the globals and then, in its
  frame loop, reads the two keys and runs simulation ticks.\<close>

inductive reachable :: "Game \<Rightarrow> bool" where
  init: "reachable (resetRun (initGame rs))"
| frame: "reachable s \<Longrightarrow> reachable (frameInput keys s)"
| step: "reachable s \<Longrightarrow> reachable (tick keys s)"

text \<open>An invariant of the reachable states: a running game has a player with hp left, the room
  cursor is inside the grid, and no room of the grid has more than 6 enemies.\<close>

definition gameInv :: "Game \<Rightarrow> bool" where
  "gameInv s \<longleftrightarrow>
     (\<not> g_runOver s \<longrightarrow> 1 \<le> hp (g_player s))
   \<and> inb (g_rx s) (g_ry s)
   \<and> (\<forall>c. inb (fst c) (snd c) \<longrightarrow> length (enemies (g_dungeon s c)) \<le> 6)"

text \<open>The player stands in the upper door of the start room, which leads to an existing room.
  The start room is not cleared: its only enemy is alive, with 1 hp left, and a bullet of the
  player is about to reach it.\<close>

definition lastShotGame :: Game where
  "lastShotGame = (initGame [])
     \<lparr>g_dungeon := (\<lambda>c. Room0)
        ((2, 2) := Room0\<lparr>exists := True, doors := (\<lambda>i. i = dir_int Up),
                         enemies := [Enemy0\<lparr>e_p := mkVec 480 350, e_hp := 1\<rparr>]\<rparr>,
         (2, 1) := Room0\<lparr>exists := True, doors := (\<lambda>i. i = dir_int Down),
                         enemies := [Enemy0\<lparr>e_p := mkVec 300 200\<rparr>]\<rparr>),
      g_startx := 2, g_starty := 2,
      g_player := Player0\<lparr>pl_p := mkVec 480 102,
         shots := [Bullet0\<lparr>b_p := mkVec 480 353, b_v := mkVec 0 (- 360), b_r := 5,
                           b_ttl := 1 / 2\<rparr>]\<rparr>\<rparr>"

text \<open>The state one tick later, with no key down: the bullet is gone and the enemy, moved
  towards the player, is marked dead but still in the list.\<close>

definition afterShotGame :: Game where
  "afterShotGame = lastShotGame
     \<lparr>g_dungeon := (g_dungeon lastShotGame)
        ((2, 2) := (g_dungeon lastShotGame (2, 2))
           \<lparr>enemies := [Enemy0\<lparr>e_p := mkVec 480 (350 - 55 / 120), e_hp := 0, e_dead := True\<rparr>]\<rparr>),
      g_player := (g_player lastShotGame)\<lparr>shots := []\<rparr>\<rparr>"

section \<open>Contact damage and the invulnerability timer\<close>

lemma hitStep_skip:
  "e_dead e \<or> \<not> overlaps (g_player s) e \<Longrightarrow> hitStep dt e s = s"
  by (auto simp: hitStep_def)

lemma hit_loop_none:
  "\<forall>e \<in> set es. e_dead e \<or> \<not> overlaps (g_player s) e \<Longrightarrow> fold (hitStep dt) es s = s"
  by (induction es) (simp_all add: hitStep_skip)

lemma hit_loop_cooling:
  "0 \<le> dt \<Longrightarrow> 0 < hurtCD s
   \<Longrightarrow> real (length (touching (g_player s) es)) * dt < hurtCD s + dt
   \<Longrightarrow> fold (hitStep dt) es s
       = s\<lparr>hurtCD := max 0 (hurtCD s - real (length (touching (g_player s) es)) * dt)\<rparr>"
proof (induction es arbitrary: s)
  case Nil
  then show ?case by (simp add: touching_def)
next
  case (Cons e es)
  show ?case
  proof (cases "e_dead e \<or> \<not> overlaps (g_player s) e")
    case True
    then have "hitStep dt e s = s" by (rule hitStep_skip)
    moreover have "touching (g_player s) (e # es) = touching (g_player s) es"
      using True by (auto simp: touching_def)
    ultimately show ?thesis using Cons by simp
  next
    case False
    define s' where "s' = s\<lparr>hurtCD := max 0 (hurtCD s - dt)\<rparr>"
    have step: "hitStep dt e s = s'"
      using False Cons.prems(2) by (simp add: hitStep_def s'_def)
    have len: "length (touching (g_player s) (e # es)) = Suc (length (touching (g_player s) es))"
      using False by (simp add: touching_def)
    have pl: "g_player s' = g_player s" by (simp add: s'_def)
    show ?thesis
    proof (cases "touching (g_player s) es = []")
      case True
      then have "\<forall>e \<in> set es. e_dead e \<or> \<not> overlaps (g_player s') e"
        by (auto simp: touching_def filter_empty_conv pl)
      then have "fold (hitStep dt) es s' = s'" by (rule hit_loop_none)
      then show ?thesis using step len True by (simp add: s'_def)
    next
      case False
      then have k: "1 \<le> real (length (touching (g_player s) es))"
        by (cases "touching (g_player s) es") simp_all
      have lt: "(real (length (touching (g_player s) es)) + 1) * dt < hurtCD s + dt"
        using Cons.prems(3) len by (simp add: algebra_simps)
      have "dt \<le> real (length (touching (g_player s) es)) * dt"
        using k Cons.prems(1) by (metis mult_le_cancel_right2 mult.commute mult_left_mono mult.right_neutral)
      with lt have pos: "0 < hurtCD s - dt" by (simp add: algebra_simps)
      then have cd: "hurtCD s' = hurtCD s - dt" by (simp add: s'_def)
      have "fold (hitStep dt) es s'
          = s'\<lparr>hurtCD := max 0 (hurtCD s' - real (length (touching (g_player s') es)) * dt)\<rparr>"
        using Cons.IH[of s'] Cons.prems(1) pos cd lt pl by (simp add: algebra_simps)
      then show ?thesis using step len pl cd by (simp add: s'_def algebra_simps)
    qed
  qed
qed


lemma hurt_fields:
  "hp (g_player (hurt e s)) = hp (g_player s) - 1"
  "pl_p (g_player (hurt e s))
     = vadd (pl_p (g_player s)) (vmul (norm_vec (vsub (pl_p (g_player s)) (e_p e))) 20)"
  "hurtCD (hurt e s) = 9 / 10"
  "g_runOver (hurt e s) \<longleftrightarrow> hp (g_player s) - 1 \<le> 0 \<or> g_runOver s"
  "g_dungeon (hurt e s) = g_dungeon s"
  "g_rx (hurt e s) = g_rx s" "g_ry (hurt e s) = g_ry s"
  "g_rng (hurt e s) = g_rng s"
  by (simp_all add: hurt_def Let_def)

lemma hitStep_touch:
  "\<not> e_dead e \<Longrightarrow> overlaps (g_player s) e \<Longrightarrow>
     hitStep dt e s = (if hurtCD s \<le> 0 then (hurt e s)\<lparr>hurtCD := max 0 (9 / 10 - dt)\<rparr>
                       else s\<lparr>hurtCD := max 0 (hurtCD s - dt)\<rparr>)"
  by (simp add: hitStep_def Let_def hurt_fields)

lemma touching_length: "length (touching P es) \<le> length es"
  by (simp add: touching_def)

lemma hit_loop_after_hurt:
  assumes "length es \<le> 107"
  shows "fold (hitStep DT) es ((hurt e s)\<lparr>hurtCD := max 0 (9 / 10 - DT)\<rparr>)
       = (hurt e s)\<lparr>hurtCD := 9 / 10 - real (Suc (length (touching (g_player (hurt e s)) es))) * DT\<rparr>"
proof -
  define s1 where "s1 = (hurt e s)\<lparr>hurtCD := max 0 (9 / 10 - DT)\<rparr>"
  have cd: "hurtCD s1 = 107 / 120" by (simp add: s1_def)
  have pl: "g_player s1 = g_player (hurt e s)" by (simp add: s1_def)
  have "length (touching (g_player s1) es) \<le> 107"
    using touching_length[of "g_player s1" es] assms by simp
  then have k: "real (length (touching (g_player s1) es)) \<le> 107" by simp
  have "fold (hitStep DT) es s1
      = s1\<lparr>hurtCD := max 0 (hurtCD s1 - real (length (touching (g_player s1) es)) * DT)\<rparr>"
    using k cd by (intro hit_loop_cooling) simp_all
  moreover have "max 0 (hurtCD s1 - real (length (touching (g_player s1) es)) * DT)
      = 9 / 10 - real (Suc (length (touching (g_player s1) es))) * DT"
    using k cd by (simp add: field_simps)
  ultimately show ?thesis by (simp add: s1_def)
qed


lemma hit_loop_hp_bounds:
  assumes "length es \<le> 108"
  shows "hp (g_player s) - 1 \<le> hp (g_player (fold (hitStep DT) es s))
       \<and> hp (g_player (fold (hitStep DT) es s)) \<le> hp (g_player s)
       \<and> (g_runOver (fold (hitStep DT) es s) \<longleftrightarrow>
            g_runOver s \<or> (hp (g_player (fold (hitStep DT) es s)) < hp (g_player s)
                            \<and> hp (g_player (fold (hitStep DT) es s)) \<le> 0))"
  using assms
proof (induction es arbitrary: s)
  case Nil
  then show ?case by simp
next
  case (Cons e es)
  show ?case
  proof (cases "e_dead e \<or> \<not> overlaps (g_player s) e")
    case True
    then have "hitStep DT e s = s" by (rule hitStep_skip)
    then show ?thesis using Cons.IH[of s] Cons.prems by simp
  next
    case False
    show ?thesis
    proof (cases "hurtCD s \<le> 0")
      case True
      have step: "hitStep DT e s = (hurt e s)\<lparr>hurtCD := max 0 (9 / 10 - DT)\<rparr>"
        using False True by (simp add: hitStep_touch)
      have "length es \<le> 107" using Cons.prems by simp
      from hit_loop_after_hurt[OF this, of e s] step
      show ?thesis by (auto simp: hurt_fields)
    next
      case F: False
      define s' where "s' = s\<lparr>hurtCD := max 0 (hurtCD s - DT)\<rparr>"
      have step: "hitStep DT e s = s'"
        using False F by (simp add: hitStep_touch s'_def)
      have "length es \<le> 108" using Cons.prems by simp
      from Cons.IH[OF this, of s'] step show ?thesis by (simp add: s'_def)
    qed
  qed
qed

lemma hitStep_frame:
  "g_dungeon (hitStep dt e s) = g_dungeon s"
  "g_rx (hitStep dt e s) = g_rx s" "g_ry (hitStep dt e s) = g_ry s"
  "g_rng (hitStep dt e s) = g_rng s"
  by (simp_all add: hitStep_def Let_def hurt_fields)

lemma hit_loop_frame:
  "g_dungeon (fold (hitStep dt) es s) = g_dungeon s"
  "g_rx (fold (hitStep dt) es s) = g_rx s" "g_ry (fold (hitStep dt) es s) = g_ry s"
  "g_rng (fold (hitStep dt) es s) = g_rng s"
  by (induction es arbitrary: s) (simp_all add: hitStep_frame)

lemma playerUpdateMove_frame:
  "hp (g_player (playerUpdateMove keys dt s)) = hp (g_player s)"
  "shots (g_player (playerUpdateMove keys dt s)) = shots (g_player s)"
  "hurtCD (playerUpdateMove keys dt s) = hurtCD s"
  "g_runOver (playerUpdateMove keys dt s) = g_runOver s"
  "g_dungeon (playerUpdateMove keys dt s) = g_dungeon s"
  "g_rx (playerUpdateMove keys dt s) = g_rx s" "g_ry (playerUpdateMove keys dt s) = g_ry s"
  "g_rng (playerUpdateMove keys dt s) = g_rng s"
  by (simp_all add: playerUpdateMove_def Let_def)

lemma playerShootInput_frame:
  "hp (g_player (playerShootInput keys s)) = hp (g_player s)"
  "pl_p (g_player (playerShootInput keys s)) = pl_p (g_player s)"
  "hurtCD (playerShootInput keys s) = hurtCD s"
  "g_runOver (playerShootInput keys s) = g_runOver s"
  "g_dungeon (playerShootInput keys s) = g_dungeon s"
  "g_rx (playerShootInput keys s) = g_rx s" "g_ry (playerShootInput keys s) = g_ry s"
  "g_rng (playerShootInput keys s) = g_rng s"
  by (simp_all add: playerShootInput_def playerShoot_def Let_def)

lemma updateEnemies_frame:
  "g_player (updateEnemies c dt s) = g_player s"
  "hurtCD (updateEnemies c dt s) = hurtCD s"
  "g_runOver (updateEnemies c dt s) = g_runOver s"
  "g_rx (updateEnemies c dt s) = g_rx s" "g_ry (updateEnemies c dt s) = g_ry s"
  "g_rng (updateEnemies c dt s) = g_rng s"
  "c' \<noteq> c \<Longrightarrow> g_dungeon (updateEnemies c dt s) c' = g_dungeon s c'"
  by (simp_all add: updateEnemies_def Let_def)

lemma updateEnemies_room:
  "enemies (g_dungeon (updateEnemies c dt s) c)
     = filter (\<lambda>e. \<not> e_dead e) (map (enemyMove (pl_p (g_player s)) dt) (enemies (g_dungeon s c)))"
  "cleared (g_dungeon (updateEnemies c dt s) c)
     \<longleftrightarrow> cleared (g_dungeon s c) \<or> enemies (g_dungeon (updateEnemies c dt s) c) = []"
  "exists (g_dungeon (updateEnemies c dt s) c) = exists (g_dungeon s c)"
  "doors (g_dungeon (updateEnemies c dt s) c) = doors (g_dungeon s c)"
  "boss (g_dungeon (updateEnemies c dt s) c) = boss (g_dungeon s c)"
  by (simp_all add: updateEnemies_def Let_def)

lemma updateBullets_frame:
  "hp (g_player (updateBullets c dt s)) = hp (g_player s)"
  "pl_p (g_player (updateBullets c dt s)) = pl_p (g_player s)"
  "hurtCD (updateBullets c dt s) = hurtCD s"
  "g_runOver (updateBullets c dt s) = g_runOver s"
  "g_rx (updateBullets c dt s) = g_rx s" "g_ry (updateBullets c dt s) = g_ry s"
  "g_rng (updateBullets c dt s) = g_rng s"
  "c' \<noteq> c \<Longrightarrow> g_dungeon (updateBullets c dt s) c' = g_dungeon s c'"
  "cleared (g_dungeon (updateBullets c dt s) c) = cleared (g_dungeon s c)"
  "exists (g_dungeon (updateBullets c dt s) c) = exists (g_dungeon s c)"
  "doors (g_dungeon (updateBullets c dt s) c) = doors (g_dungeon s c)"
  "boss (g_dungeon (updateBullets c dt s) c) = boss (g_dungeon s c)"
  by (simp_all add: updateBullets_def Let_def split: prod.splits)

lemma updateBullets_enemies:
  "enemies (g_dungeon (updateBullets c dt s) c)
     = snd (bulletsLoop dt (shots (g_player s)) (enemies (g_dungeon s c)))"
  by (simp add: updateBullets_def Let_def split: prod.splits)

lemma hitEnemies_length: "length (snd (hitEnemies b es)) = length es"
  by (induction es) (auto simp: Let_def split: prod.splits)

lemma bulletStep_length: "length (snd (bulletStep dt b es)) = length es"
  by (simp add: bulletStep_def Let_def hitEnemies_length)

lemma bulletsLoop_length: "length (snd (bulletsLoop dt bs es)) = length es"
proof (induction bs arbitrary: es)
  case Nil
  then show ?case by simp
next
  case (Cons b bs)
  obtain b' es' where st: "bulletStep dt b es = (b', es')" by (cases "bulletStep dt b es")
  then have "length es' = length es" using bulletStep_length[of dt b es] by simp
  then show ?case using Cons[of es'] st by (auto simp: Let_def split: prod.splits)
qed

lemma beforeHit_frame:
  "hp (g_player (beforeHit keys s)) = hp (g_player s)"
  "hurtCD (beforeHit keys s) = hurtCD s"
  "g_runOver (beforeHit keys s) = g_runOver s"
  "g_rx (beforeHit keys s) = g_rx s" "g_ry (beforeHit keys s) = g_ry s"
  "g_rng (beforeHit keys s) = g_rng s"
  by (simp_all add: beforeHit_def Let_def updateBullets_frame updateEnemies_frame
        playerShootInput_frame playerUpdateMove_frame)

lemma beforeHit_other_rooms:
  "c' \<noteq> (g_rx s, g_ry s) \<Longrightarrow> g_dungeon (beforeHit keys s) c' = g_dungeon s c'"
  by (simp add: beforeHit_def Let_def updateBullets_frame updateEnemies_frame
        playerShootInput_frame playerUpdateMove_frame)

lemma beforeHit_room:
  "exists (g_dungeon (beforeHit keys s) c) = exists (g_dungeon s c)"
  "doors (g_dungeon (beforeHit keys s) c) = doors (g_dungeon s c)"
  "boss (g_dungeon (beforeHit keys s) c) = boss (g_dungeon s c)"
  by (cases "c = (g_rx s, g_ry s)";
      simp add: beforeHit_def Let_def updateBullets_frame updateEnemies_frame updateEnemies_room
        playerShootInput_frame playerUpdateMove_frame)+

lemma beforeHit_enemies_length:
  "length (enemies (g_dungeon (beforeHit keys s) c)) \<le> length (enemies (g_dungeon s c))"
proof (cases "c = (g_rx s, g_ry s)")
  case True
  have "length (filter (\<lambda>e. \<not> e_dead e) (map f (enemies (g_dungeon s c)))) \<le> length (enemies (g_dungeon s c))" for f
    by (metis length_filter_le length_map)
  then show ?thesis using True
    by (simp add: beforeHit_def Let_def updateBullets_enemies bulletsLoop_length
        updateEnemies_room playerShootInput_frame playerUpdateMove_frame del: length_filter_le)
next
  case False
  then show ?thesis by (simp add: beforeHit_other_rooms)
qed

lemma tryGo_frame:
  "hp (g_player (snd (tryGo R d nx ny np s))) = hp (g_player s)"
  "hurtCD (snd (tryGo R d nx ny np s)) = hurtCD s"
  "g_runOver (snd (tryGo R d nx ny np s)) = g_runOver s"
  "g_dungeon (snd (tryGo R d nx ny np s)) = g_dungeon s"
  "g_rng (snd (tryGo R d nx ny np s)) = g_rng s"
  "\<not> fst (tryGo R d nx ny np s) \<Longrightarrow> snd (tryGo R d nx ny np s) = s"
  by (auto simp: tryGo_def Let_def)

lemma handleDoors_frame:
  "hp (g_player (handleDoorsAndTransitions c s)) = hp (g_player s)"
  "hurtCD (handleDoorsAndTransitions c s) = hurtCD s"
  "g_runOver (handleDoorsAndTransitions c s) = g_runOver s"
  "g_dungeon (handleDoorsAndTransitions c s) = g_dungeon s"
  "g_rng (handleDoorsAndTransitions c s) = g_rng s"
  by (simp_all add: handleDoorsAndTransitions_def Let_def tryGo_def split: prod.splits)

lemma checkAllCleared_frame:
  "g_player (checkAllCleared s) = g_player s"
  "hurtCD (checkAllCleared s) = hurtCD s"
  "g_dungeon (checkAllCleared s) = g_dungeon s"
  "g_rx (checkAllCleared s) = g_rx s" "g_ry (checkAllCleared s) = g_ry s"
  "g_rng (checkAllCleared s) = g_rng s"
  by (simp_all add: checkAllCleared_def Let_def split: prod.splits)

lemma tick_hp_timer:
  "\<not> g_runOver s \<Longrightarrow>
     hp (g_player (tick keys s))
       = hp (g_player (playerHitCheck (g_rx s, g_ry s) DT (beforeHit keys s)))"
  "\<not> g_runOver s \<Longrightarrow>
     hurtCD (tick keys s) = hurtCD (playerHitCheck (g_rx s, g_ry s) DT (beforeHit keys s))"
  by (simp_all add: tick_def Let_def checkAllCleared_frame handleDoors_frame)



lemma contactGame_simps:
  "enemies (g_dungeon (contactGame t) (2, 2))
     = [Enemy0\<lparr>e_p := mkVec 470 270\<rparr>, Enemy0\<lparr>e_p := mkVec 490 270\<rparr>]"
  "g_player (contactGame t) = Player0\<lparr>pl_p := mkVec 480 270\<rparr>"
  "hurtCD (contactGame t) = t"
  by (simp_all add: contactGame_def)




section \<open>Door transitions\<close>

lemma playerHitCheck_frame:
  "g_dungeon (playerHitCheck c dt s) = g_dungeon s"
  "g_rx (playerHitCheck c dt s) = g_rx s" "g_ry (playerHitCheck c dt s) = g_ry s"
  "g_rng (playerHitCheck c dt s) = g_rng s"
  by (simp_all add: playerHitCheck_def hit_loop_frame)

lemma tick_dungeon:
  "\<not> g_runOver s \<Longrightarrow> g_dungeon (tick keys s) = g_dungeon (beforeHit keys s)"
  by (simp add: tick_def Let_def checkAllCleared_frame handleDoors_frame playerHitCheck_frame)

lemma tick_cursor:
  "\<not> g_runOver s \<Longrightarrow>
     g_rx (tick keys s) = g_rx (handleDoorsAndTransitions (g_rx s, g_ry s)
                                  (playerHitCheck (g_rx s, g_ry s) DT (beforeHit keys s)))"
  "\<not> g_runOver s \<Longrightarrow>
     g_ry (tick keys s) = g_ry (handleDoorsAndTransitions (g_rx s, g_ry s)
                                  (playerHitCheck (g_rx s, g_ry s) DT (beforeHit keys s)))"
  by (simp_all add: tick_def Let_def checkAllCleared_frame)

text \<open>
  Claim C8. While the \<^verbatim>\<open>cleared\<close> flag of the room is false, \<^verbatim>\<open>handleDoorsAndTransitions\<close>
  returns the state it was given, whatever the player's position and the doors: the room
  cursor and the player's position stay as they are, and the function has no error result.
  For a whole tick: if the room the tick started in is not cleared when the tick ends, the
  room cursor has not moved.
\<close>

theorem C8_no_traversal_while_uncleared:
  "(\<not> cleared (g_dungeon s c) \<longrightarrow> handleDoorsAndTransitions c s = s)
   \<and> (\<not> g_runOver s \<and> \<not> cleared (g_dungeon (tick keys s) (g_rx s, g_ry s))
        \<longrightarrow> g_rx (tick keys s) = g_rx s \<and> g_ry (tick keys s) = g_ry s)"
proof (intro conjI impI)
  assume "\<not> cleared (g_dungeon s c)"
  then show "handleDoorsAndTransitions c s = s"
    by (simp add: handleDoorsAndTransitions_def)
next
  assume "\<not> g_runOver s \<and> \<not> cleared (g_dungeon (tick keys s) (g_rx s, g_ry s))"
  then have a: "\<not> g_runOver s" and nc: "\<not> cleared (g_dungeon (tick keys s) (g_rx s, g_ry s))"
    by simp_all
  define s6 where "s6 = playerHitCheck (g_rx s, g_ry s) DT (beforeHit keys s)"
  have "\<not> cleared (g_dungeon s6 (g_rx s, g_ry s))"
    using nc by (simp add: tick_dungeon[OF a] s6_def playerHitCheck_frame)
  then have "handleDoorsAndTransitions (g_rx s, g_ry s) s6 = s6"
    by (simp add: handleDoorsAndTransitions_def)
  then show "g_rx (tick keys s) = g_rx s" "g_ry (tick keys s) = g_ry s"
    by (simp_all add: tick_cursor[OF a] s6_def[symmetric])
      (simp_all add: s6_def playerHitCheck_frame beforeHit_frame)
qed

lemma lockedGame_simps:
  "g_dungeon lockedGame (2, 2) = Room0\<lparr>exists := True, doors := (\<lambda>i. i = dir_int Up),
                         enemies := [Enemy0\<lparr>e_p := mkVec 480 350, e_kind := 1\<rparr>]\<rparr>"
  "g_dungeon lockedGame (2, 1) = Room0\<lparr>exists := True, doors := (\<lambda>i. i = dir_int Down),
                         enemies := [Enemy0\<lparr>e_p := mkVec 300 200\<rparr>]\<rparr>"
  "g_player lockedGame = Player0\<lparr>pl_p := mkVec 480 102\<rparr>"
  "g_rx lockedGame = 2" "g_ry lockedGame = 2" "g_runOver lockedGame = False"
  "hurtCD lockedGame = 0"
  by (simp_all add: lockedGame_def initGame_def)

text \<open>Witness for C8: the player stands in the upper door of a room that is not cleared and
  nothing happens; the same state with the flag set takes the player to the room above.\<close>

theorem C8_no_traversal_while_uncleared_witness:
  "\<not> cleared (g_dungeon lockedGame (2, 2))
   \<and> handleDoorsAndTransitions (2, 2) lockedGame = lockedGame
   \<and> g_ry (handleDoorsAndTransitions (2, 2)
        (lockedGame\<lparr>g_dungeon := (g_dungeon lockedGame)
            ((2, 2) := (g_dungeon lockedGame (2, 2))\<lparr>cleared := True\<rparr>)\<rparr>)) = 1"
proof -
  have 1: "\<not> cleared (g_dungeon lockedGame (2, 2))"
    by (simp add: lockedGame_simps Room0_def)
  have 2: "handleDoorsAndTransitions (2, 2) lockedGame = lockedGame"
    using C8_no_traversal_while_uncleared[of lockedGame "(2, 2)"] 1 by simp
  have 3: "g_ry (handleDoorsAndTransitions (2, 2)
        (lockedGame\<lparr>g_dungeon := (g_dungeon lockedGame)
            ((2, 2) := (g_dungeon lockedGame (2, 2))\<lparr>cleared := True\<rparr>)\<rparr>)) = 1"
    by (simp add: handleDoorsAndTransitions_def lockedGame_simps Room0_def Player0_def tryGo_def
        InflateRect_def circleRectOverlap_def clamp_def mkVec_def)
  show ?thesis using 1 2 3 by simp
qed

section \<open>Evaluating a tick on the example states\<close>

lemmas vec_defs = mkVec_def vadd_def vsub_def vmul_def norm_vec_def len_def dot_def clamp_def
  trunc_def


lemma playerUpdateMove_idle:
  assumes "pl_r (g_player s) = 12"
    and "152 \<le> vx (pl_p (g_player s))" "vx (pl_p (g_player s)) \<le> 808"
    and "102 \<le> vy (pl_p (g_player s))" "vy (pl_p (g_player s)) \<le> 438"
  shows "playerUpdateMove idle dt s = s"
  using assms by (simp add: playerUpdateMove_def idle_def Let_def vec_defs)

lemma playerShootInput_idle: "playerShootInput idle s = s"
  by (simp add: playerShootInput_def idle_def Let_def vec_defs)

lemma updateBullets_no_shots: "shots (g_player s) = [] \<Longrightarrow> updateBullets c dt s = s"
  by (simp add: updateBullets_def Let_def)

lemma beforeHit_idle:
  assumes "pl_r (g_player s) = 12"
    and "152 \<le> vx (pl_p (g_player s))" "vx (pl_p (g_player s)) \<le> 808"
    and "102 \<le> vy (pl_p (g_player s))" "vy (pl_p (g_player s)) \<le> 438"
    and "shotCooldown (g_player s) \<le> 0"
  shows "beforeHit idle s
     = updateBullets (g_rx s, g_ry s) DT (updateEnemies (g_rx s, g_ry s) DT s)"
  using assms by (simp add: beforeHit_def Let_def playerUpdateMove_idle playerShootInput_idle)

lemma em1: "enemyMove (mkVec 480 102) DT (Enemy0\<lparr>e_p := mkVec 480 350, e_kind := 1\<rparr>)
   = Enemy0\<lparr>e_p := mkVec (480 + 55 * (75 / 100) / 120) 350, e_kind := 1\<rparr>"
  by (simp add: enemyMove_def Let_def Enemy0_def vec_defs)

lemma beforeHit_lockedGame:
  "beforeHit idle lockedGame
     = lockedGame\<lparr>g_dungeon := (g_dungeon lockedGame)((2, 2) := (g_dungeon lockedGame (2, 2))
         \<lparr>enemies := [Enemy0\<lparr>e_p := mkVec (480 + 55 * (75 / 100) / 120) 350, e_kind := 1\<rparr>]\<rparr>)\<rparr>"
proof -
  have "beforeHit idle lockedGame = updateBullets (2, 2) DT (updateEnemies (2, 2) DT lockedGame)"
    by (subst beforeHit_idle) (simp_all add: lockedGame_simps Player0_def mkVec_def)
  also have "updateEnemies (2, 2) DT lockedGame
     = lockedGame\<lparr>g_dungeon := (g_dungeon lockedGame)((2, 2) := (g_dungeon lockedGame (2, 2))
         \<lparr>enemies := [Enemy0\<lparr>e_p := mkVec (480 + 55 * (75 / 100) / 120) 350, e_kind := 1\<rparr>]\<rparr>)\<rparr>"
    unfolding updateEnemies_def Let_def
    by (simp add: lockedGame_simps em1 Player0_def) (simp add: Enemy0_def)
  also have "updateBullets (2, 2) DT \<dots> = \<dots>"
    by (rule updateBullets_no_shots) (simp add: lockedGame_simps Player0_def)
  finally show ?thesis .
qed

lemma touching_lockedGame:
  "touching (g_player (beforeHit idle lockedGame))
     (enemies (g_dungeon (beforeHit idle lockedGame) (2, 2))) = []"
  by (simp add: beforeHit_lockedGame lockedGame_simps touching_def overlaps_def Player0_def
      Enemy0_def mkVec_def)


lemma em2:
  "enemyMove (mkVec 480 270) DT (Enemy0\<lparr>e_p := mkVec 470 270\<rparr>)
     = Enemy0\<lparr>e_p := mkVec (470 + 55 / 120) 270\<rparr>"
  "enemyMove (mkVec 480 270) DT (Enemy0\<lparr>e_p := mkVec 490 270\<rparr>)
     = Enemy0\<lparr>e_p := mkVec (490 - 55 / 120) 270\<rparr>"
  by (simp_all add: enemyMove_def Let_def Enemy0_def vec_defs)

lemma beforeHit_contactGame:
  "beforeHit idle (contactGame t)
     = (contactGame t)\<lparr>g_dungeon := (g_dungeon (contactGame t))((2, 2) := (g_dungeon (contactGame t) (2, 2))
         \<lparr>enemies := [Enemy0\<lparr>e_p := mkVec (470 + 55 / 120) 270\<rparr>,
                       Enemy0\<lparr>e_p := mkVec (490 - 55 / 120) 270\<rparr>]\<rparr>)\<rparr>"
proof -
  have c: "g_rx (contactGame t) = 2" "g_ry (contactGame t) = 2"
    by (simp_all add: contactGame_def initGame_def)
  have "beforeHit idle (contactGame t)
      = updateBullets (2, 2) DT (updateEnemies (2, 2) DT (contactGame t))"
    by (subst beforeHit_idle) (simp_all add: contactGame_simps c Player0_def mkVec_def)
  also have "updateEnemies (2, 2) DT (contactGame t)
     = (contactGame t)\<lparr>g_dungeon := (g_dungeon (contactGame t))((2, 2) := (g_dungeon (contactGame t) (2, 2))
         \<lparr>enemies := [Enemy0\<lparr>e_p := mkVec (470 + 55 / 120) 270\<rparr>,
                       Enemy0\<lparr>e_p := mkVec (490 - 55 / 120) 270\<rparr>]\<rparr>)\<rparr>"
    unfolding updateEnemies_def Let_def
    by (simp add: contactGame_simps em2 Player0_def) (simp add: Enemy0_def)
  also have "updateBullets (2, 2) DT \<dots> = \<dots>"
    by (rule updateBullets_no_shots) (simp add: contactGame_simps Player0_def)
  finally show ?thesis .
qed

lemma touching_contactGame:
  "length (touching (g_player (beforeHit idle (contactGame t)))
     (enemies (g_dungeon (beforeHit idle (contactGame t)) (2, 2)))) = 2"
  by (simp add: beforeHit_contactGame contactGame_simps touching_def overlaps_def Player0_def
      Enemy0_def mkVec_def)

section \<open>The timer is changed by the contact check only\<close>

lemma carveDungeon_frame:
  "hurtCD (carveDungeon s) = hurtCD s"
  "g_player (carveDungeon s) = g_player s"
  "g_runOver (carveDungeon s) = g_runOver s"
  "g_rx (carveDungeon s) = g_rx s" "g_ry (carveDungeon s) = g_ry s"
  "g_startx (carveDungeon s) = 2" "g_starty (carveDungeon s) = 2"
  by (simp_all add: carveDungeon_def Let_def split: prod.splits)

lemma resetRun_fields:
  "hurtCD (resetRun s) = hurtCD s"
  "g_player (resetRun s) = Player0\<lparr>pl_p := mkVec 480 270\<rparr>"
  "g_runOver (resetRun s) = False"
  "g_allCleared (resetRun s) = False"
  "g_rx (resetRun s) = 2" "g_ry (resetRun s) = 2"
  "g_startx (resetRun s) = 2" "g_starty (resetRun s) = 2"
  "g_dungeon (resetRun s) = g_dungeon (carveDungeon s)"
  by (simp_all add: resetRun_def Let_def carveDungeon_frame)

text \<open>
  Claim C10. The invulnerability timer changes only in the loop of \<^verbatim>\<open>playerHitCheck\<close>:
  a tick of a finished run leaves it as it is, and in a tick of a running game it ends with the
  value \<^verbatim>\<open>playerHitCheck\<close> leaves, the systems before it not touching it. For one enemy of the
  loop: a dead enemy or one that does not overlap the player leaves the timer as it is, and an
  overlapping live enemy lowers it by one step (after setting it to 0.9 when it deals damage).
  So a tick in which no live enemy overlaps the player leaves the timer unchanged, and a tick
  with \<open>k\<close> overlapping live enemies and no damage lowers it by \<open>k\<close> steps. \<^verbatim>\<open>resetRun\<close> and
  the restart key leave the timer as it is.
\<close>

theorem C10_timer_only_in_hit_check:
  "(g_runOver s \<longrightarrow> hurtCD (tick keys s) = hurtCD s)
   \<and> (\<not> g_runOver s \<longrightarrow>
         hurtCD (beforeHit keys s) = hurtCD s
       \<and> hurtCD (tick keys s) = hurtCD (playerHitCheck (g_rx s, g_ry s) DT (beforeHit keys s)))
   \<and> hurtCD (hitStep dt e s) =
        (if \<not> e_dead e \<and> overlaps (g_player s) e
         then max 0 ((if hurtCD s \<le> 0 then 9 / 10 else hurtCD s) - dt) else hurtCD s)
   \<and> (\<not> g_runOver s
        \<and> touching (g_player (beforeHit keys s))
             (enemies (g_dungeon (beforeHit keys s) (g_rx s, g_ry s))) = []
      \<longrightarrow> hurtCD (tick keys s) = hurtCD s)
   \<and> (\<not> g_runOver s \<and> 0 < hurtCD s
        \<and> real (length (touching (g_player (beforeHit keys s))
                  (enemies (g_dungeon (beforeHit keys s) (g_rx s, g_ry s))))) * DT < hurtCD s + DT
      \<longrightarrow> hurtCD (tick keys s)
            = max 0 (hurtCD s - real (length (touching (g_player (beforeHit keys s))
                  (enemies (g_dungeon (beforeHit keys s) (g_rx s, g_ry s))))) * DT))
   \<and> hurtCD (resetRun s) = hurtCD s
   \<and> hurtCD (frameInput keys s) = hurtCD s"
proof (intro conjI impI)
  show "g_runOver s \<Longrightarrow> hurtCD (tick keys s) = hurtCD s"
    by (simp add: tick_def)
  show "\<not> g_runOver s \<Longrightarrow> hurtCD (beforeHit keys s) = hurtCD s"
    by (simp add: beforeHit_frame)
  show "\<not> g_runOver s \<Longrightarrow>
      hurtCD (tick keys s) = hurtCD (playerHitCheck (g_rx s, g_ry s) DT (beforeHit keys s))"
    by (simp add: tick_hp_timer)
  show "hurtCD (hitStep dt e s) =
        (if \<not> e_dead e \<and> overlaps (g_player s) e
         then max 0 ((if hurtCD s \<le> 0 then 9 / 10 else hurtCD s) - dt) else hurtCD s)"
    by (simp add: hitStep_def Let_def hurt_fields)
  show "hurtCD (resetRun s) = hurtCD s"
    by (simp add: resetRun_fields)
  show "hurtCD (frameInput keys s) = hurtCD s"
    by (simp add: frameInput_def resetRun_fields)
next
  assume "\<not> g_runOver s
        \<and> touching (g_player (beforeHit keys s))
             (enemies (g_dungeon (beforeHit keys s) (g_rx s, g_ry s))) = []"
  then have a: "\<not> g_runOver s" and "touching (g_player (beforeHit keys s))
             (enemies (g_dungeon (beforeHit keys s) (g_rx s, g_ry s))) = []" by simp_all
  then have "\<forall>e \<in> set (enemies (g_dungeon (beforeHit keys s) (g_rx s, g_ry s))).
      e_dead e \<or> \<not> overlaps (g_player (beforeHit keys s)) e"
    by (auto simp: touching_def filter_empty_conv)
  then have "playerHitCheck (g_rx s, g_ry s) DT (beforeHit keys s) = beforeHit keys s"
    unfolding playerHitCheck_def by (rule hit_loop_none)
  then show "hurtCD (tick keys s) = hurtCD s"
    by (simp add: tick_hp_timer[OF a] beforeHit_frame)
next
  assume "\<not> g_runOver s \<and> 0 < hurtCD s
        \<and> real (length (touching (g_player (beforeHit keys s))
                  (enemies (g_dungeon (beforeHit keys s) (g_rx s, g_ry s))))) * DT < hurtCD s + DT"
  then have a: "\<not> g_runOver s" and "0 < hurtCD s"
    and "real (length (touching (g_player (beforeHit keys s))
                  (enemies (g_dungeon (beforeHit keys s) (g_rx s, g_ry s))))) * DT < hurtCD s + DT"
    by simp_all
  then have "playerHitCheck (g_rx s, g_ry s) DT (beforeHit keys s)
      = (beforeHit keys s)\<lparr>hurtCD := max 0 (hurtCD (beforeHit keys s)
           - real (length (touching (g_player (beforeHit keys s))
                  (enemies (g_dungeon (beforeHit keys s) (g_rx s, g_ry s))))) * DT)\<rparr>"
    unfolding playerHitCheck_def
    by (intro hit_loop_cooling) (simp_all add: beforeHit_frame)
  then show "hurtCD (tick keys s)
            = max 0 (hurtCD s - real (length (touching (g_player (beforeHit keys s))
                  (enemies (g_dungeon (beforeHit keys s) (g_rx s, g_ry s))))) * DT)"
    by (simp add: tick_hp_timer[OF a] beforeHit_frame)
qed

text \<open>Witness for C10, with no key pressed: a tick of a finished run, a tick in which the only
  enemy is far from the player, and a tick in which two live enemies overlap the player while
  the timer is at 1.\<close>

theorem C10_timer_only_in_hit_check_witness:
  "hurtCD (tick idle ((contactGame 1)\<lparr>g_runOver := True\<rparr>)) = 1
   \<and> hurtCD (tick idle lockedGame) = 0
   \<and> hurtCD (tick idle (contactGame 1)) = 1 - 2 * DT"
proof -
  note t = C10_timer_only_in_hit_check
  have c: "g_rx (contactGame 1) = 2" "g_ry (contactGame 1) = 2" "\<not> g_runOver (contactGame 1)"
    by (simp_all add: contactGame_def initGame_def)
  have 1: "hurtCD (tick idle ((contactGame 1)\<lparr>g_runOver := True\<rparr>)) = 1"
    using t[of "(contactGame 1)\<lparr>g_runOver := True\<rparr>" idle, THEN conjunct1]
    by (simp add: contactGame_simps)
  have 2: "hurtCD (tick idle lockedGame) = 0"
    using t[of lockedGame idle, THEN conjunct2, THEN conjunct2, THEN conjunct2, THEN conjunct1]
    by (simp add: lockedGame_simps touching_lockedGame)
  have 3: "hurtCD (tick idle (contactGame 1)) = 1 - 2 * DT"
    using t[of "contactGame 1" idle, THEN conjunct2, THEN conjunct2, THEN conjunct2,
        THEN conjunct2, THEN conjunct1]
    by (simp add: c contactGame_simps touching_contactGame)
  show ?thesis using 1 2 3 by simp
qed

section \<open>The dungeon generator\<close>

lemma set_cells: "set cells = {c. inb (fst c) (snd c)}"
proof -
  have "set cells = {0 .. 4} \<times> {0 .. 4}"
    by (auto simp: cells_def)
  also have "\<dots> = {c. inb (fst c) (snd c)}"
    by (auto simp: inb_def)
  finally show ?thesis .
qed

lemma distinct_cells: "distinct cells"
  by (simp add: cells_def upto_rec1)

lemma finite_inb: "finite {c. inb (fst c) (snd c)}"
  using set_cells[symmetric] by (metis List.finite_set)

lemma finite_existing: "finite (existing dg)"
  by (rule finite_subset[OF _ finite_inb]) (auto simp: existing_def)

lemma dir_int_inj: "dir_int d = dir_int d' \<longleftrightarrow> d = d'"
  by (cases d; cases d') simp_all

lemma dir_int_opposite: "(dir_int d + 2) mod 4 = dir_int (opposite d)"
  by (cases d) simp_all

lemma opposite_opposite: "opposite (opposite d) = d"
  by (cases d) simp_all

lemma nbr_opposite: "nbr (nbr c d) (opposite d) = c"
  by (cases d) (simp_all add: nbr_def)

lemma nbr_neq: "nbr c d \<noteq> c"
  by (cases c; cases d) (simp_all add: nbr_def)

lemma nbr_inj: "nbr c d = nbr c d' \<longleftrightarrow> d = d'"
  by (cases c; cases d; cases d') (simp_all add: nbr_def)

lemma inb_has_nbr: "inb (fst c) (snd c) \<Longrightarrow> \<exists>d. inb (fst (nbr c d)) (snd (nbr c d))"
proof -
  assume a: "inb (fst c) (snd c)"
  show ?thesis
  proof (cases "fst c < 4")
    case True
    then have "inb (fst (nbr c Right)) (snd (nbr c Right))" using a by (simp add: nbr_def inb_def)
    then show ?thesis ..
  next
    case False
    then have "inb (fst (nbr c Left)) (snd (nbr c Left))" using a by (simp add: nbr_def inb_def)
    then show ?thesis ..
  qed
qed

subsection \<open>The random source\<close>

lemma randint_range: "a \<le> b \<Longrightarrow> a \<le> fst (randint a b g) \<and> fst (randint a b g) \<le> b"
proof -
  assume "a \<le> b"
  then have "0 < nat (b - a + 1)" by simp
  then have "r mod nat (b - a + 1) < nat (b - a + 1)" for r by (rule mod_less_divisor)
  then have "int (r mod nat (b - a + 1)) \<le> b - a" for r
    using \<open>a \<le> b\<close> by (metis add_diff_cancel_right' int_nat_eq nat_int zle_add1_eq_le zless_nat_conj
        add.commute less_imp_le nat_less_iff zless_add1_eq le_less)
  then show ?thesis by (simp add: randint_def Let_def split: prod.splits) (metis add.commute add_le_cancel_left diff_add_cancel)
qed

lemma swap_set: "i < length xs \<Longrightarrow> j < length xs \<Longrightarrow> set (swap i j xs) = set xs"
  by (simp add: swap_def set_swap)

lemma swap_length: "length (swap i j xs) = length xs"
  by (simp add: swap_def)

lemma shuffle_fold_set:
  "\<forall>i \<in> set is. i < length xs \<Longrightarrow>
     set (fst (fold shuffle_step is (xs, g))) = set xs
   \<and> length (fst (fold shuffle_step is (xs, g))) = length xs"
proof (induction "is" arbitrary: xs g)
  case Nil
  then show ?case by simp
next
  case (Cons i "is")
  obtain j g' where r: "randint 0 (int i) g = (j, g')" by (cases "randint 0 (int i) g")
  have "0 \<le> j \<and> j \<le> int i" using randint_range[of 0 "int i" g] r by simp
  then have j: "nat j < length xs" using Cons.prems by auto
  have i: "i < length xs" using Cons.prems by simp
  have st: "shuffle_step i (xs, g) = (swap i (nat j) xs, g')"
    by (simp add: shuffle_step_def r)
  have "\<forall>i \<in> set is. i < length (swap i (nat j) xs)" using Cons.prems by (simp add: swap_length)
  then have "\<forall>k \<in> set is. k < length (swap i (nat j) xs)" using Cons.prems by (simp add: swap_length)
  from Cons.IH[OF this, of g'] show ?case
    by (simp add: st swap_set[OF i j] swap_length)
qed

lemma shuffle_set: "set (fst (shuffle xs g)) = set xs"
  unfolding shuffle_def by (rule shuffle_fold_set[THEN conjunct1]) simp

lemma all_dirs: "set [Up, Right, Down, Left] = UNIV"
proof -
  have "d \<in> set [Up, Right, Down, Left]" for d by (cases d) simp_all
  then show ?thesis by blast
qed

subsection \<open>One pass over the directions\<close>

lemma tryDirs_Some:
  "tryDirs dg cur ds = Some (dg', n) \<Longrightarrow>
     \<exists>d \<in> set ds. n = nbr cur d \<and> inb (fst n) (snd n) \<and> \<not> exists (dg n) \<and> dg' = carve dg cur d n"
  by (induction ds) (auto simp: Let_def split: if_splits)

lemma tryDirs_None:
  "tryDirs dg cur ds = None \<Longrightarrow>
     \<forall>d \<in> set ds. \<not> inb (fst (nbr cur d)) (snd (nbr cur d)) \<or> exists (dg (nbr cur d))"
  by (induction ds) (auto simp: Let_def split: if_splits)

subsection \<open>Adding a leaf keeps a graph free of cycles\<close>

lemma cycle_index_arith:
  assumes "3 \<le> n" "i < n"
  shows "Suc ((i + n - 1) mod n) mod n = i" and "Suc i mod n \<noteq> (i + n - 1) mod n"
proof -
  show "Suc ((i + n - 1) mod n) mod n = i"
    using assms by (simp add: mod_Suc_eq)
  show "Suc i mod n \<noteq> (i + n - 1) mod n"
  proof (cases "i = 0")
    case True
    then show ?thesis using assms by simp
  next
    case False
    then have "(i + n - 1) mod n = i - 1"
      using assms by (metis Nat.add_diff_assoc2 One_nat_def Suc_leI add.commute less_imp_diff_less
          mod_add_self1 mod_less neq0_conv)
    then show ?thesis using assms False by (cases "Suc i < n") (auto simp: mod_Suc)
  qed
qed

lemma no_cycle_add_leaf:
  assumes "\<not> has_cycle E" and "\<And>a. (a, v) \<notin> E" and "\<And>a. (v, a) \<notin> E" and "u \<noteq> v"
  shows "\<not> has_cycle (E \<union> {(u, v), (v, u)})"
proof
  assume "has_cycle (E \<union> {(u, v), (v, u)})"
  then obtain vs where vs: "3 \<le> length vs" "distinct vs"
    and edges: "\<And>i. i < length vs \<Longrightarrow> (vs ! i, vs ! (Suc i mod length vs)) \<in> E \<union> {(u, v), (v, u)}"
    unfolding has_cycle_def by blast
  show False
  proof (cases "v \<in> set vs")
    case True
    then obtain i where i: "i < length vs" "vs ! i = v" by (auto simp: in_set_conv_nth)
    define j where "j = (i + length vs - 1) mod length vs"
    have pos: "0 < length vs" using vs(1) by (cases vs) simp_all
    then have j: "j < length vs" unfolding j_def by (rule mod_less_divisor)
    have sj: "Suc j mod length vs = i" unfolding j_def using cycle_index_arith(1)[OF vs(1) i(1)] .
    have "vs ! (Suc i mod length vs) = u"
      using edges[OF i(1)] i(2) assms(3,4) by auto
    moreover have "vs ! j = u"
      using edges[OF j] sj i(2) assms(2,4) by auto
    moreover have "Suc i mod length vs < length vs" using pos by (rule mod_less_divisor)
    ultimately have "Suc i mod length vs = j"
      using vs(2) j by (metis nth_eq_iff_index_eq)
    then show False using cycle_index_arith(2)[OF vs(1) i(1)] by (simp add: j_def)
  next
    case False
    have pos: "0 < length vs" using vs(1) by (cases vs) simp_all
    have "(vs ! i, vs ! (Suc i mod length vs)) \<in> E" if "i < length vs" for i
    proof -
      have "vs ! i \<in> set vs" using that by simp
      then have "vs ! i \<noteq> v" using False by auto
      moreover have "Suc i mod length vs < length vs" using pos by (rule mod_less_divisor)
      then have "vs ! (Suc i mod length vs) \<in> set vs" by simp
      then have "vs ! (Suc i mod length vs) \<noteq> v" using False by auto
      ultimately show ?thesis using edges[OF that] by auto
    qed
    then have "has_cycle E" unfolding has_cycle_def using vs by blast
    then show False using assms(1) by simp
  qed
qed

subsection \<open>The effect of carving a door\<close>

lemma carve_cell:
  "n \<noteq> cur \<Longrightarrow> carve dg cur d n c =
     (if c = n then (dg n)\<lparr>exists := True, doors := (doors (dg n))(dir_int (opposite d) := True)\<rparr>
      else if c = cur then (dg cur)\<lparr>exists := True, doors := (doors (dg cur))(dir_int d := True)\<rparr>
      else dg c)"
  unfolding carve_def Let_def dir_int_opposite by simp

lemma existing_carve:
  assumes "cur \<in> existing dg" "inb (fst n) (snd n)" "n \<noteq> cur"
  shows "existing (carve dg cur d n) = insert n (existing dg)"
  using assms by (auto simp: existing_def carve_cell)

lemma adj_carve:
  assumes doors: "\<And>c d. inb (fst c) (snd c) \<Longrightarrow> doors (dg c) (dir_int d) \<Longrightarrow>
          c \<in> existing dg \<and> nbr c d \<in> existing dg"
    and cur: "cur \<in> existing dg" and n: "nbr cur d = n" "inb (fst n) (snd n)" "n \<notin> existing dg"
  shows "adj (carve dg cur d n) = adj dg \<union> {(cur, n), (n, cur)}"
proof -
  define dg' where "dg' = carve dg cur d n"
  have ne: "n \<noteq> cur" using n(1) nbr_neq by metis
  have nd: "\<not> doors (dg n) (dir_int d')" for d'
    using doors[OF n(2), of d'] n(3) by blast
  have nb: "nbr n (opposite d) = cur" using n(1) nbr_opposite by metis
  have ex: "existing dg' = insert n (existing dg)"
    unfolding dg'_def using existing_carve[OF cur n(2) ne] .
  have dn: "doors (dg' n) (dir_int d') \<longleftrightarrow> d' = opposite d" for d'
    using nd by (simp add: dg'_def carve_cell[OF ne] dir_int_inj)
  have dc: "doors (dg' cur) (dir_int d') \<longleftrightarrow> doors (dg cur) (dir_int d') \<or> d' = d" for d'
    using ne by (auto simp: dg'_def carve_cell[OF ne] dir_int_inj)
  have dother: "dg' c = dg c" if "c \<noteq> n" "c \<noteq> cur" for c
    using that by (simp add: dg'_def carve_cell[OF ne])
  have "adj dg' = adj dg \<union> {(cur, n), (n, cur)}"
  proof (rule set_eqI)
    fix e :: "(int \<times> int) \<times> (int \<times> int)"
    obtain a b where e: "e = (a, b)" by (cases e)
    consider "a = n" | "a = cur" | "a \<noteq> n" "a \<noteq> cur" by blast
    then show "e \<in> adj dg' \<longleftrightarrow> e \<in> adj dg \<union> {(cur, n), (n, cur)}"
    proof cases
      case 1
      have "(n, b) \<in> adj dg' \<longleftrightarrow> b = cur"
        using nb by (auto simp: adj_def ex dn)
      moreover have "(n, b) \<notin> adj dg" using n(3) by (simp add: adj_def)
      ultimately show ?thesis using 1 e ne by auto
    next
      case 2
      have "(cur, b) \<in> adj dg' \<longleftrightarrow> (\<exists>d'. (doors (dg cur) (dir_int d') \<or> d' = d) \<and> b = nbr cur d')"
        using cur by (simp add: adj_def ex dc)
      also have "\<dots> \<longleftrightarrow> (cur, b) \<in> adj dg \<or> b = n"
        using cur n(1) by (auto simp: adj_def)
      finally show ?thesis using 2 e ne by auto
    next
      case 3
      have "(a, b) \<in> adj dg' \<longleftrightarrow> (a, b) \<in> adj dg"
        using 3 by (simp add: adj_def ex dother)
      then show ?thesis using 3 e by auto
    qed
  qed
  then show ?thesis by (simp add: dg'_def)
qed

lemma carve_fields:
  "boss (carve dg cur d n c) = boss (dg c)"
  "cleared (carve dg cur d n c) = cleared (dg c)"
  "enemies (carve dg cur d n c) = enemies (dg c)"
  by (simp_all add: carve_def Let_def)

lemma no_cycle_empty: "\<not> has_cycle {}"
  unfolding has_cycle_def
proof clarify
  fix vs :: "'a list"
  assume len: "3 \<le> length vs"
    and edges: "\<forall>i < length vs. (vs ! i, vs ! (Suc i mod length vs)) \<in> {}"
  from len have "0 < length vs" by linarith
  with edges have "(vs ! 0, vs ! (Suc 0 mod length vs)) \<in> {}" by blast
  then show False by simp
qed

lemma carveInvD:
  assumes "carveInv start t st"
  shows "start \<in> existing (c_dg st)"
    and "set (c_stack st) \<subseteq> existing (c_dg st)"
    and "\<And>c d. inb (fst c) (snd c) \<Longrightarrow> doors (c_dg st c) (dir_int d) \<Longrightarrow>
          c \<in> existing (c_dg st) \<and> nbr c d \<in> existing (c_dg st)
        \<and> doors (c_dg st (nbr c d)) (dir_int (opposite d))"
    and "connected_from (c_dg st) start"
    and "\<not> has_cycle (adj (c_dg st))"
    and "int (card (existing (c_dg st))) = c_made st"
    and "c_made st \<le> max 1 t"
    and "c_stack st = [] \<Longrightarrow> 2 \<le> c_made st"
    and "\<And>c. inb (fst c) (snd c) \<Longrightarrow>
          \<not> boss (c_dg st c) \<and> \<not> cleared (c_dg st c) \<and> enemies (c_dg st c) = []"
  using assms unfolding carveInv_def by blast+

lemma carveInvI:
  assumes "start \<in> existing (c_dg st)"
    and "set (c_stack st) \<subseteq> existing (c_dg st)"
    and "\<And>c d. inb (fst c) (snd c) \<Longrightarrow> doors (c_dg st c) (dir_int d) \<Longrightarrow>
          c \<in> existing (c_dg st) \<and> nbr c d \<in> existing (c_dg st)
        \<and> doors (c_dg st (nbr c d)) (dir_int (opposite d))"
    and "connected_from (c_dg st) start"
    and "\<not> has_cycle (adj (c_dg st))"
    and "int (card (existing (c_dg st))) = c_made st"
    and "c_made st \<le> max 1 t"
    and "c_stack st = [] \<Longrightarrow> 2 \<le> c_made st"
    and "\<And>c. inb (fst c) (snd c) \<Longrightarrow>
          \<not> boss (c_dg st c) \<and> \<not> cleared (c_dg st c) \<and> enemies (c_dg st c) = []"
  shows "carveInv start t st"
  using assms unfolding carveInv_def by blast

lemma reset_cells:
  "fold (\<lambda>c dg. dg(c := Room0)) cs dg c = (if c \<in> set cs then Room0 else dg c)"
  by (induction cs arbitrary: dg) auto

lemma carveInv_init:
  assumes "\<And>c. inb (fst c) (snd c) \<Longrightarrow> dg0 c = Room0" and "inb (fst start) (snd start)"
  shows "carveInv start t \<lparr>c_dg = dg0(start := (dg0 start)\<lparr>exists := True\<rparr>), c_stack = [start],
            c_order = [start], c_made = 1, c_rng = g\<rparr>"
proof -
  define dg1 where "dg1 = dg0(start := (dg0 start)\<lparr>exists := True\<rparr>)"
  have ex: "existing dg1 = {start}"
    using assms by (auto simp: existing_def dg1_def Room0_def)
  have nd: "\<not> doors (dg1 c) i" if "inb (fst c) (snd c)" for c i
    using assms(1)[OF that] assms(1)[OF assms(2)] by (simp add: dg1_def Room0_def)
  have "adj dg1 = {}"
    using nd by (auto simp: adj_def existing_def)
  then have "\<not> has_cycle (adj dg1)" by (simp add: no_cycle_empty)
  moreover have "connected_from dg1 start" by (simp add: connected_from_def ex)
  moreover have "\<not> boss (dg1 c) \<and> \<not> cleared (dg1 c) \<and> enemies (dg1 c) = []"
    if "inb (fst c) (snd c)" for c
    using assms(1)[OF that] assms(1)[OF assms(2)] by (simp add: dg1_def Room0_def)
  ultimately show ?thesis
    unfolding dg1_def[symmetric] using nd by (intro carveInvI) (simp_all add: ex)
qed

lemma carveInv_pop:
  assumes inv: "carveInv start t st" and ne: "c_stack st \<noteq> []"
    and none: "\<forall>d. \<not> inb (fst (nbr (hd (c_stack st)) d)) (snd (nbr (hd (c_stack st)) d))
                 \<or> exists (c_dg st (nbr (hd (c_stack st)) d))"
  shows "carveInv start t (st\<lparr>c_stack := tl (c_stack st), c_rng := g\<rparr>)"
proof -
  define cur where "cur = hd (c_stack st)"
  note D = carveInvD[OF inv]
  have cur: "cur \<in> existing (c_dg st)"
    using D(2) ne by (auto simp: cur_def)
  then have "inb (fst cur) (snd cur)" by (simp add: existing_def)
  then obtain d where "inb (fst (nbr cur d)) (snd (nbr cur d))" using inb_has_nbr by blast
  then have "nbr cur d \<in> existing (c_dg st)"
    using none by (auto simp: existing_def cur_def)
  then have "{cur, nbr cur d} \<subseteq> existing (c_dg st)" using cur by simp
  then have "card {cur, nbr cur d} \<le> card (existing (c_dg st))"
    by (rule card_mono[OF finite_existing])
  moreover have "card {cur, nbr cur d} = 2" using nbr_neq[of cur d] by simp
  ultimately have "2 \<le> c_made st" using D(6) by simp
  moreover have "set (tl (c_stack st)) \<subseteq> existing (c_dg st)"
    using D(2) ne by (auto dest: list.set_sel(2))
  ultimately show ?thesis using D by (intro carveInvI) simp_all
qed

lemma carveInv_push:
  assumes inv: "carveInv start t st" and ne: "c_stack st \<noteq> []" and lt: "c_made st < t"
    and n: "nbr (hd (c_stack st)) d = n" "inb (fst n) (snd n)" "\<not> exists (c_dg st n)"
  shows "carveInv start t (st\<lparr>c_dg := carve (c_dg st) (hd (c_stack st)) d n,
           c_stack := n # c_stack st, c_order := c_order st @ [n], c_made := c_made st + 1,
           c_rng := g\<rparr>)"
proof -
  define cur where "cur = hd (c_stack st)"
  define dg where "dg = c_dg st"
  define dg' where "dg' = carve dg cur d n"
  note D = carveInvD[OF inv, folded dg_def]
  have cur: "cur \<in> existing dg"
    using D(2) ne by (auto simp: cur_def)
  have nx: "n \<notin> existing dg" using n(3) by (simp add: existing_def dg_def)
  have nc: "nbr cur d = n" using n(1) by (simp add: cur_def)
  have neq: "n \<noteq> cur" using nc nbr_neq by metis
  have nb: "nbr n (opposite d) = cur" using nc nbr_opposite by metis
  have doors: "c \<in> existing dg \<and> nbr c d' \<in> existing dg \<and> doors (dg (nbr c d')) (dir_int (opposite d'))"
    if "inb (fst c) (snd c)" "doors (dg c) (dir_int d')" for c d'
    using D(3) that by blast
  have nd: "\<not> doors (dg n) (dir_int d')" for d'
    using doors[OF n(2), of d'] nx by blast
  have ex: "existing dg' = insert n (existing dg)"
    unfolding dg'_def using existing_carve[OF cur n(2) neq] .
  have dn: "doors (dg' n) (dir_int d') \<longleftrightarrow> d' = opposite d" for d'
    using nd by (simp add: dg'_def carve_cell[OF neq] dir_int_inj)
  have dc: "doors (dg' cur) (dir_int d') \<longleftrightarrow> doors (dg cur) (dir_int d') \<or> d' = d" for d'
    using neq by (auto simp: dg'_def carve_cell[OF neq] dir_int_inj)
  have dother: "dg' c = dg c" if "c \<noteq> n" "c \<noteq> cur" for c
    using that by (simp add: dg'_def carve_cell[OF neq])
  have keep: "doors (dg' c) (dir_int d')" if "doors (dg c) (dir_int d')" "c \<noteq> n" for c d'
    using that dc dother by (cases "c = cur") auto
  have adj: "adj dg' = adj dg \<union> {(cur, n), (n, cur)}"
    unfolding dg'_def using doors cur nc n(2) nx by (intro adj_carve) auto
  have 1: "start \<in> existing dg'" using D(1) by (simp add: ex)
  have 2: "set (n # c_stack st) \<subseteq> existing dg'"
    using D(2) by (auto simp: ex)
  have 3: "c \<in> existing dg' \<and> nbr c d' \<in> existing dg'
        \<and> doors (dg' (nbr c d')) (dir_int (opposite d'))"
    if c: "inb (fst c) (snd c)" and dr: "doors (dg' c) (dir_int d')" for c d'
  proof -
    consider "c = n" | "c = cur" "d' = d" | "c = cur" "d' \<noteq> d" | "c \<noteq> n" "c \<noteq> cur" by blast
    then show ?thesis
    proof cases
      case 1
      then have "d' = opposite d" using dr dn by simp
      then show ?thesis using 1 nb cur dc[of d] by (simp add: ex opposite_opposite)
    next
      case 2
      then show ?thesis using nc cur dn by (simp add: ex)
    next
      case 3
      then have o: "doors (dg cur) (dir_int d')" using dr dc by simp
      from doors[OF _ o] cur have m: "nbr cur d' \<in> existing dg"
        "doors (dg (nbr cur d')) (dir_int (opposite d'))" by (simp_all add: existing_def)
      then have "nbr cur d' \<noteq> n" using nx by auto
      then show ?thesis using 3 m cur keep by (simp add: ex)
    next
      case 4
      then have o: "doors (dg c) (dir_int d')" using dr dother by simp
      from doors[OF c o] have m: "c \<in> existing dg" "nbr c d' \<in> existing dg"
        "doors (dg (nbr c d')) (dir_int (opposite d'))" by simp_all
      then have "nbr c d' \<noteq> n" using nx by auto
      then show ?thesis using m keep by (simp add: ex)
    qed
  qed
  have sub: "(adj dg)\<^sup>* \<subseteq> (adj dg')\<^sup>*" by (rule rtrancl_mono) (auto simp: adj)
  have conn: "connected_from dg start" using D(4) .
  have "(start, cur) \<in> (adj dg')\<^sup>*" using conn cur sub by (auto simp: connected_from_def)
  moreover have "(cur, n) \<in> adj dg'" by (simp add: adj)
  ultimately have "(start, n) \<in> (adj dg')\<^sup>*" by (rule rtrancl_into_rtrancl)
  then have 4: "connected_from dg' start"
    using conn sub by (auto simp: connected_from_def ex)
  have "(a, n) \<notin> adj dg" for a
  proof
    assume "(a, n) \<in> adj dg"
    then obtain d' where "a \<in> existing dg" "doors (dg a) (dir_int d')" "n = nbr a d'"
      by (auto simp: adj_def)
    then have "n \<in> existing dg" using doors[of a d'] by (simp add: existing_def)
    then show False using nx by simp
  qed
  moreover have "(n, a) \<notin> adj dg" for a using nx by (simp add: adj_def)
  moreover have "\<not> has_cycle (adj dg)" using D(5) .
  ultimately have 5: "\<not> has_cycle (adj dg')"
    unfolding adj using neq by (intro no_cycle_add_leaf) auto
  have 6: "int (card (existing dg')) = c_made st + 1"
    using D(6) nx by (simp add: ex finite_existing)
  have 7: "c_made st + 1 \<le> max 1 t" using lt by simp
  have 8: "\<not> boss (dg' c) \<and> \<not> cleared (dg' c) \<and> enemies (dg' c) = []"
    if "inb (fst c) (snd c)" for c
    using D(9)[OF that] by (simp add: dg'_def carve_fields)
  show ?thesis
    unfolding cur_def[symmetric] dg_def[symmetric] dg'_def[symmetric]
    using 1 2 3 4 5 6 7 8 by (intro carveInvI) simp_all
qed

lemma carveInv_step:
  assumes "carveInv start t st" and "c_made st < t" and "c_stack st \<noteq> []"
  shows "carveInv start t (carveStep st)"
proof -
  obtain dirs rng' where sh: "shuffle [Up, Right, Down, Left] (c_rng st) = (dirs, rng')"
    by (cases "shuffle [Up, Right, Down, Left] (c_rng st)")
  have dirs: "set dirs = UNIV"
    using shuffle_set[of "[Up, Right, Down, Left]" "c_rng st"] sh all_dirs by simp
  show ?thesis
  proof (cases "tryDirs (c_dg st) (hd (c_stack st)) dirs")
    case None
    from tryDirs_None[OF this] dirs
    have "\<forall>d. \<not> inb (fst (nbr (hd (c_stack st)) d)) (snd (nbr (hd (c_stack st)) d))
                 \<or> exists (c_dg st (nbr (hd (c_stack st)) d))" by simp
    from carveInv_pop[OF assms(1,3) this, of rng'] show ?thesis
      by (simp add: carveStep_def sh None)
  next
    case (Some r)
    obtain dg' n where r: "r = (dg', n)" by (cases r)
    from tryDirs_Some[OF Some[unfolded r]] obtain d where
      d: "nbr (hd (c_stack st)) d = n" "inb (fst n) (snd n)" "\<not> exists (c_dg st n)"
        "dg' = carve (c_dg st) (hd (c_stack st)) d n" by auto
    from carveInv_push[OF assms(1,3,2) d(1,2,3), of rng'] show ?thesis
      by (simp add: carveStep_def sh Some r d(4))
  qed
qed

lemma carveLoop_inv: "carveInv start t st \<Longrightarrow> carveInv start t (carveLoop t st)"
proof (induction t st rule: carveLoop.induct)
  case (1 t st)
  show ?case
  proof (cases "c_made st < t \<and> c_stack st \<noteq> []")
    case True
    then have "carveInv start t (carveStep st)" using carveInv_step 1(2) by simp
    then have "carveInv start t (carveLoop t (carveStep st))" using 1(1) True by simp
    then show ?thesis using True by (simp add: carveLoop.simps[of t st])
  next
    case False
    then show ?thesis using 1(2) by (auto simp: carveLoop.simps[of t st])
  qed
qed

lemma carveLoop_exit:
  "\<not> (c_made (carveLoop t st) < t \<and> c_stack (carveLoop t st) \<noteq> [])"
proof (induction t st rule: carveLoop.induct)
  case (1 t st)
  show ?case
  proof (cases "c_made st < t \<and> c_stack st \<noteq> []")
    case True
    then show ?thesis using 1 by (simp add: carveLoop.simps[of t st])
  next
    case False
    then show ?thesis by (auto simp: carveLoop.simps[of t st])
  qed
qed

subsection \<open>The carving loop as a whole\<close>

lemma inb_start: "inb (fst (2, 2)) (snd (2, 2))"
  by (simp add: inb_def)

lemma carveRooms_inv:
  assumes "carveRooms dg g = (t, st)"
  shows "carveInv (2, 2) t st" and "t = fst (randint 6 9 g)" and "6 \<le> t" and "t \<le> 9"
    and "\<not> (c_made st < t \<and> c_stack st \<noteq> [])"
proof -
  obtain t' g1 where r: "randint 6 9 g = (t', g1)" by (cases "randint 6 9 g")
  define dg0 where "dg0 = fold (\<lambda>c dg. dg(c := Room0)) cells dg"
  have dg0: "dg0 c = Room0" if "inb (fst c) (snd c)" for c
    using that by (simp add: dg0_def reset_cells set_cells)
  have t: "t = t'" and st: "st = carveLoop t'
      \<lparr>c_dg = dg0((2, 2) := (dg0 (2, 2))\<lparr>exists := True\<rparr>), c_stack = [(2, 2)],
       c_order = [(2, 2)], c_made = 1, c_rng = g1\<rparr>"
    using assms by (auto simp: carveRooms_def Let_def r dg0_def)
  show "t = fst (randint 6 9 g)" by (simp add: t r)
  show "6 \<le> t" "t \<le> 9" using randint_range[of 6 9 g] by (simp_all add: t r)
  show "carveInv (2, 2) t st"
    unfolding t st by (rule carveLoop_inv, rule carveInv_init[OF dg0 inb_start])
  show "\<not> (c_made st < t \<and> c_stack st \<noteq> [])"
    unfolding t st by (rule carveLoop_exit)
qed

lemma carveRooms_count:
  assumes "carveRooms dg g = (t, st)"
  shows "2 \<le> card (existing (c_dg st))" and "int (card (existing (c_dg st))) \<le> t"
proof -
  note I = carveRooms_inv[OF assms]
  note D = carveInvD[OF I(1)]
  have "2 \<le> c_made st" using D(8) I(3,5) by (cases "c_stack st = []") auto
  then show "2 \<le> card (existing (c_dg st))" using D(6) by linarith
  show "int (card (existing (c_dg st))) \<le> t" using D(6,7) I(3) by simp
qed

subsection \<open>The scan for the boss room\<close>

lemma bossScan_fold:
  "(\<forall>c \<in> set cs. exists (dg c) \<longrightarrow> dist_sq sx sy c \<le> best)
     \<longrightarrow> fold (bossStep dg sx sy) cs (b, best) = (b, best)"
  "(\<exists>c \<in> set cs. exists (dg c) \<and> dist_sq sx sy c > best)
     \<longrightarrow> first_farthest dg sx sy cs (fst (fold (bossStep dg sx sy) cs (b, best)))
         \<and> snd (fold (bossStep dg sx sy) cs (b, best))
             = dist_sq sx sy (fst (fold (bossStep dg sx sy) cs (b, best)))
         \<and> best < snd (fold (bossStep dg sx sy) cs (b, best))"
proof (induction cs arbitrary: b best)
  case Nil
  { case 1 show ?case by simp }
  { case 2 show ?case by simp }
next
  case (Cons c cs)
  { case 1
    show ?case using Cons(1)[where best = best and b = b] by (auto simp: bossStep_def Let_def) }
  { case 2
    show ?case
    proof (intro impI)
      assume ex: "\<exists>c' \<in> set (c # cs). exists (dg c') \<and> dist_sq sx sy c' > best"
      show "first_farthest dg sx sy (c # cs) (fst (fold (bossStep dg sx sy) (c # cs) (b, best)))
         \<and> snd (fold (bossStep dg sx sy) (c # cs) (b, best))
             = dist_sq sx sy (fst (fold (bossStep dg sx sy) (c # cs) (b, best)))
         \<and> best < snd (fold (bossStep dg sx sy) (c # cs) (b, best))"
      proof (cases "exists (dg c) \<and> dist_sq sx sy c > best")
        case True
        then have step: "bossStep dg sx sy c (b, best) = (c, dist_sq sx sy c)"
          by (simp add: bossStep_def Let_def)
        show ?thesis
        proof (cases "\<exists>c' \<in> set cs. exists (dg c') \<and> dist_sq sx sy c' > dist_sq sx sy c")
          case False
          then have "fold (bossStep dg sx sy) cs (c, dist_sq sx sy c) = (c, dist_sq sx sy c)"
            using Cons(1)[where best = "dist_sq sx sy c" and b = c] by auto
          moreover have "first_farthest dg sx sy (c # cs) c"
            unfolding first_farthest_def using True False
            by (intro exI[of _ "[]"] exI[of _ cs]) auto
          ultimately show ?thesis using True by (simp add: step)
        next
          case T: True
          define r where "r = fold (bossStep dg sx sy) cs (c, dist_sq sx sy c)"
          from Cons(2)[where best = "dist_sq sx sy c" and b = c] T
          have ff: "first_farthest dg sx sy cs (fst r)" and sn: "snd r = dist_sq sx sy (fst r)"
            and gt: "dist_sq sx sy c < snd r" by (simp_all add: r_def)
          from ff obtain pre post where pp: "cs = pre @ fst r # post" "exists (dg (fst r))"
            "\<forall>c' \<in> set pre. exists (dg c') \<longrightarrow> dist_sq sx sy c' < dist_sq sx sy (fst r)"
            "\<forall>c' \<in> set post. exists (dg c') \<longrightarrow> dist_sq sx sy c' \<le> dist_sq sx sy (fst r)"
            unfolding first_farthest_def by blast
          have "first_farthest dg sx sy (c # cs) (fst r)"
            unfolding first_farthest_def using pp gt sn
            by (intro exI[of _ "c # pre"] exI[of _ post]) auto
          then show ?thesis using sn gt True by (simp add: step r_def[symmetric])
        qed
      next
        case False
        then have step: "bossStep dg sx sy c (b, best) = (b, best)"
          by (auto simp: bossStep_def Let_def)
        from False ex have T: "\<exists>c' \<in> set cs. exists (dg c') \<and> dist_sq sx sy c' > best" by auto
        define r where "r = fold (bossStep dg sx sy) cs (b, best)"
        from Cons(2)[where best = best and b = b] T
        have ff: "first_farthest dg sx sy cs (fst r)" and sn: "snd r = dist_sq sx sy (fst r)"
          and gt: "best < snd r" by (simp_all add: r_def)
        from ff obtain pre post where pp: "cs = pre @ fst r # post" "exists (dg (fst r))"
          "\<forall>c' \<in> set pre. exists (dg c') \<longrightarrow> dist_sq sx sy c' < dist_sq sx sy (fst r)"
          "\<forall>c' \<in> set post. exists (dg c') \<longrightarrow> dist_sq sx sy c' \<le> dist_sq sx sy (fst r)"
          unfolding first_farthest_def by blast
        have "first_farthest dg sx sy (c # cs) (fst r)"
          unfolding first_farthest_def using pp gt sn False
          by (intro exI[of _ "c # pre"] exI[of _ post]) auto
        then show ?thesis using sn gt by (simp add: step r_def[symmetric])
      qed
    qed }
qed

lemma dist_nonneg: "0 \<le> dist_sq sx sy c"
  by (simp add: dist_sq_def Let_def)

lemma bossScan_first_farthest:
  assumes "(sx, sy) \<in> set cells" "exists (dg (sx, sy))"
  shows "first_farthest dg sx sy cells (bossScan dg sx sy)"
proof -
  have "\<exists>c \<in> set cells. exists (dg c) \<and> dist_sq sx sy c > - 1"
    using assms dist_nonneg[of sx sy "(sx, sy)"] by (intro bexI[of _ "(sx, sy)"]) auto
  then show ?thesis
    using bossScan_fold(2)[where cs = cells and dg = dg and sx = sx and sy = sy
        and best = "- 1" and b = "(sx, sy)"]
    by (simp add: bossScan_def)
qed

lemma first_farthest_props:
  assumes "first_farthest dg sx sy cs b"
  shows "b \<in> set cs" and "exists (dg b)"
    and "\<And>c. c \<in> set cs \<Longrightarrow> exists (dg c) \<Longrightarrow> dist_sq sx sy c \<le> dist_sq sx sy b"
proof -
  from assms obtain pre post where pp: "cs = pre @ b # post" "exists (dg b)"
    "\<forall>c' \<in> set pre. exists (dg c') \<longrightarrow> dist_sq sx sy c' < dist_sq sx sy b"
    "\<forall>c' \<in> set post. exists (dg c') \<longrightarrow> dist_sq sx sy c' \<le> dist_sq sx sy b"
    unfolding first_farthest_def by blast
  show "b \<in> set cs" "exists (dg b)" using pp by simp_all
  fix c assume c: "c \<in> set cs" "exists (dg c)"
  then consider "c \<in> set pre" | "c = b" | "c \<in> set post" using pp(1) by auto
  then show "dist_sq sx sy c \<le> dist_sq sx sy b"
  proof cases
    case 1
    then show ?thesis using pp(3) c(2) by (simp add: less_imp_le)
  next
    case 2
    then show ?thesis by simp
  next
    case 3
    then show ?thesis using pp(4) c(2) by simp
  qed
qed

subsection \<open>Population\<close>

lemma spawnOne_fold_length:
  "length (fst (fold (spawnOne isBoss) is (es, g))) = length es + length is"
proof (induction "is" arbitrary: es g)
  case Nil
  then show ?case by simp
next
  case (Cons i "is")
  obtain es' g' where st: "spawnOne isBoss i (es, g) = (es', g')"
    by (cases "spawnOne isBoss i (es, g)")
  then have "length es' = Suc (length es)"
    by (auto simp: spawnOne_def Let_def split: prod.splits if_splits)
  then show ?case using Cons[of es' g'] st by simp
qed

lemma spawnEnemies_props:
  "exists (fst (spawnEnemies R g)) = exists R"
  "boss (fst (spawnEnemies R g)) = boss R"
  "doors (fst (spawnEnemies R g)) = doors R"
  "boss R \<Longrightarrow> length (enemies (fst (spawnEnemies R g))) = 6"
  "\<not> boss R \<Longrightarrow> 2 \<le> length (enemies (fst (spawnEnemies R g)))
                \<and> length (enemies (fst (spawnEnemies R g))) \<le> 5"
  "cleared (fst (spawnEnemies R g)) \<longleftrightarrow> enemies (fst (spawnEnemies R g)) = []"
proof -
  obtain count0 g1 where r: "randint 2 5 g = (count0, g1)" by (cases "randint 2 5 g")
  have c0: "2 \<le> count0" "count0 \<le> 5" using randint_range[of 2 5 g] r by simp_all
  define count where "count = (if boss R then 6 else count0)"
  obtain es g2 where f: "fold (spawnOne (boss R)) [0 .. count - 1] ([], g1) = (es, g2)"
    by (cases "fold (spawnOne (boss R)) [0 .. count - 1] ([], g1)")
  have len: "length es = nat count"
    using spawnOne_fold_length[of "boss R" "[0 .. count - 1]" "[]" g1] f by simp
  have sp: "fst (spawnEnemies R g) = R\<lparr>enemies := es, cleared := (es = [])\<rparr>"
    using f by (simp add: spawnEnemies_def Let_def r count_def)
  show "exists (fst (spawnEnemies R g)) = exists R" "boss (fst (spawnEnemies R g)) = boss R"
    "doors (fst (spawnEnemies R g)) = doors R"
    "cleared (fst (spawnEnemies R g)) \<longleftrightarrow> enemies (fst (spawnEnemies R g)) = []"
    by (simp_all add: sp)
  show "boss R \<Longrightarrow> length (enemies (fst (spawnEnemies R g))) = 6"
    using len by (simp add: sp count_def)
  show "\<not> boss R \<Longrightarrow> 2 \<le> length (enemies (fst (spawnEnemies R g)))
                \<and> length (enemies (fst (spawnEnemies R g))) \<le> 5"
    using len c0 by (simp add: sp count_def, arith)
qed

text \<open>What the populating loop leaves in a cell: the room it found, with the flag set for the
  start cell and with enemies spawned for every other existing room.\<close>

lemma populate_fold:
  "distinct cs \<Longrightarrow> fold (populateStep sx sy) cs (dg, g) = (dg', g') \<Longrightarrow>
     (c \<notin> set cs \<longrightarrow> dg' c = dg c)
   \<and> (c \<in> set cs \<longrightarrow> (\<exists>g0. dg' c =
           (if exists (dg c)
            then (if c = (sx, sy) then (dg c)\<lparr>cleared := True\<rparr> else fst (spawnEnemies (dg c) g0))
            else dg c)))"
proof (induction cs arbitrary: dg g)
  case Nil
  then show ?case by simp
next
  case (Cons a cs)
  obtain dg1 g1 where st: "populateStep sx sy a (dg, g) = (dg1, g1)"
    by (cases "populateStep sx sy a (dg, g)")
  have other: "dg1 c' = dg c'" if "c' \<noteq> a" for c'
    using st that by (auto simp: populateStep_def Let_def split: if_splits prod.splits)
  have here: "dg1 a = (if exists (dg a)
            then (if a = (sx, sy) then (dg a)\<lparr>cleared := True\<rparr> else fst (spawnEnemies (dg a) g))
            else dg a)"
    using st by (cases a) (auto simp: populateStep_def Let_def split: if_splits prod.splits)
  have d: "distinct cs" "a \<notin> set cs" "fold (populateStep sx sy) cs (dg1, g1) = (dg', g')"
    using Cons.prems by (simp_all add: st)
  note IH = Cons.IH[OF d(1,3)]
  show ?case
  proof (cases "c = a")
    case True
    then have "dg' c = dg1 a" using IH d(2) by simp
    then show ?thesis using here True by (auto intro: exI[of _ g])
  next
    case False
    from IH[unfolded other[OF False]] False show ?thesis by simp
  qed
qed

lemma markBoss_cell:
  "markBoss sx sy dg c = (if c = bossScan dg sx sy then (dg c)\<lparr>boss := True\<rparr> else dg c)"
  by (simp add: markBoss_def Let_def)

text \<open>The rooms \<^verbatim>\<open>carveDungeon\<close> leaves, in terms of the state the carving loop ends in.\<close>

lemma carveDungeon_rooms:
  assumes cr: "carveRooms (g_dungeon s) (g_rng s) = (t, st)" and c: "inb (fst c) (snd c)"
  shows "exists (g_dungeon (carveDungeon s) c) = exists (c_dg st c)"
    and "doors (g_dungeon (carveDungeon s) c) = doors (c_dg st c)"
    and "boss (g_dungeon (carveDungeon s) c) \<longleftrightarrow> c = bossScan (c_dg st) 2 2"
    and "c = (2, 2) \<Longrightarrow> cleared (g_dungeon (carveDungeon s) c)
                          \<and> enemies (g_dungeon (carveDungeon s) c) = []"
    and "exists (c_dg st c) \<Longrightarrow> c \<noteq> (2, 2) \<Longrightarrow> c = bossScan (c_dg st) 2 2 \<Longrightarrow>
           length (enemies (g_dungeon (carveDungeon s) c)) = 6"
    and "exists (c_dg st c) \<Longrightarrow> c \<noteq> (2, 2) \<Longrightarrow> c \<noteq> bossScan (c_dg st) 2 2 \<Longrightarrow>
           2 \<le> length (enemies (g_dungeon (carveDungeon s) c))
         \<and> length (enemies (g_dungeon (carveDungeon s) c)) \<le> 5"
    and "exists (c_dg st c) \<Longrightarrow>
           cleared (g_dungeon (carveDungeon s) c) \<longleftrightarrow> enemies (g_dungeon (carveDungeon s) c) = []"
    and "\<not> exists (c_dg st c) \<Longrightarrow> enemies (g_dungeon (carveDungeon s) c) = []"
proof -
  note I = carveRooms_inv[OF cr]
  note D = carveInvD[OF I(1)]
  define dg2 where "dg2 = markBoss 2 2 (c_dg st)"
  obtain dg3 rng3 where p: "fold (populateStep 2 2) cells (dg2, c_rng st) = (dg3, rng3)"
    by (cases "fold (populateStep 2 2) cells (dg2, c_rng st)")
  have fin: "g_dungeon (carveDungeon s) = dg3"
    using p by (simp add: carveDungeon_def cr Let_def populate_def dg2_def)
  have cin: "c \<in> set cells" using c by (simp add: set_cells)
  from populate_fold[OF distinct_cells p, of c] cin obtain g0 where
    r: "dg3 c = (if exists (dg2 c)
            then (if c = (2, 2) then (dg2 c)\<lparr>cleared := True\<rparr> else fst (spawnEnemies (dg2 c) g0))
            else dg2 c)" by blast
  have m: "exists (dg2 c) = exists (c_dg st c)" "doors (dg2 c) = doors (c_dg st c)"
    "boss (dg2 c) \<longleftrightarrow> c = bossScan (c_dg st) 2 2" "\<not> cleared (dg2 c)" "enemies (dg2 c) = []"
    using D(9)[OF c] by (auto simp: dg2_def markBoss_cell)
  have st2: "exists (c_dg st (2, 2))" using D(1) by (simp add: existing_def)
  consider (none) "\<not> exists (c_dg st c)" "c \<noteq> (2, 2)" "dg3 c = dg2 c"
    | (start) "exists (c_dg st c)" "c = (2, 2)" "dg3 c = (dg2 c)\<lparr>cleared := True\<rparr>"
    | (room) "exists (c_dg st c)" "c \<noteq> (2, 2)" "dg3 c = fst (spawnEnemies (dg2 c) g0)"
    using r m(1) st2 by (cases "exists (c_dg st c)"; cases "c = (2, 2)") auto
  note cs = this
  show "exists (g_dungeon (carveDungeon s) c) = exists (c_dg st c)"
    unfolding fin using m by (cases rule: cs) (simp_all add: spawnEnemies_props)
  show "doors (g_dungeon (carveDungeon s) c) = doors (c_dg st c)"
    unfolding fin using m by (cases rule: cs) (simp_all add: spawnEnemies_props)
  show "boss (g_dungeon (carveDungeon s) c) \<longleftrightarrow> c = bossScan (c_dg st) 2 2"
    unfolding fin using m by (cases rule: cs) (simp_all add: spawnEnemies_props)
  show "c = (2, 2) \<Longrightarrow> cleared (g_dungeon (carveDungeon s) c)
                          \<and> enemies (g_dungeon (carveDungeon s) c) = []"
    unfolding fin using m by (cases rule: cs) simp_all
  show "exists (c_dg st c) \<Longrightarrow> c \<noteq> (2, 2) \<Longrightarrow> c = bossScan (c_dg st) 2 2 \<Longrightarrow>
           length (enemies (g_dungeon (carveDungeon s) c)) = 6"
    unfolding fin using m by (cases rule: cs) (simp_all add: spawnEnemies_props)
  show "exists (c_dg st c) \<Longrightarrow> c \<noteq> (2, 2) \<Longrightarrow> c \<noteq> bossScan (c_dg st) 2 2 \<Longrightarrow>
           2 \<le> length (enemies (g_dungeon (carveDungeon s) c))
         \<and> length (enemies (g_dungeon (carveDungeon s) c)) \<le> 5"
    unfolding fin using m by (cases rule: cs) (simp_all add: spawnEnemies_props)
  show "exists (c_dg st c) \<Longrightarrow>
           cleared (g_dungeon (carveDungeon s) c) \<longleftrightarrow> enemies (g_dungeon (carveDungeon s) c) = []"
  proof (cases rule: cs)
    case none
    then show "exists (c_dg st c) \<Longrightarrow> ?thesis" by simp
  next
    case start
    then show ?thesis unfolding fin using m by simp
  next
    case room
    then show ?thesis unfolding fin by (simp add: spawnEnemies_props)
  qed
  show "\<not> exists (c_dg st c) \<Longrightarrow> enemies (g_dungeon (carveDungeon s) c) = []"
    unfolding fin using m by (cases rule: cs) simp_all
qed

lemma carveDungeon_graph:
  assumes cr: "carveRooms (g_dungeon s) (g_rng s) = (t, st)"
  shows "existing (g_dungeon (carveDungeon s)) = existing (c_dg st)"
    and "adj (g_dungeon (carveDungeon s)) = adj (c_dg st)"
proof -
  show ex: "existing (g_dungeon (carveDungeon s)) = existing (c_dg st)"
    using carveDungeon_rooms(1)[OF cr] by (auto simp: existing_def)
  show "adj (g_dungeon (carveDungeon s)) = adj (c_dg st)"
    unfolding adj_def ex using carveDungeon_rooms(2)[OF cr] by (auto simp: existing_def)
qed

lemma carveRooms_ex: "\<exists>t st. carveRooms dg g = (t, st)"
  by (cases "carveRooms dg g") simp

lemma carveDungeon_tree:
  "connected_from (g_dungeon (carveDungeon s)) (2, 2)"
  "\<not> has_cycle (adj (g_dungeon (carveDungeon s)))"
  "2 \<le> card (existing (g_dungeon (carveDungeon s)))"
  "int (card (existing (g_dungeon (carveDungeon s)))) \<le> fst (randint 6 9 (g_rng s))"
  "(2, 2) \<in> existing (g_dungeon (carveDungeon s))"
proof -
  obtain t st where cr: "carveRooms (g_dungeon s) (g_rng s) = (t, st)"
    using carveRooms_ex by blast
  note I = carveRooms_inv[OF cr]
  note D = carveInvD[OF I(1)]
  note G = carveDungeon_graph[OF cr]
  show "connected_from (g_dungeon (carveDungeon s)) (2, 2)"
    using D(4) by (simp add: connected_from_def G)
  show "\<not> has_cycle (adj (g_dungeon (carveDungeon s)))" using D(5) by (simp add: G)
  show "2 \<le> card (existing (g_dungeon (carveDungeon s)))"
    using carveRooms_count(1)[OF cr] by (simp add: G)
  show "int (card (existing (g_dungeon (carveDungeon s)))) \<le> fst (randint 6 9 (g_rng s))"
    using carveRooms_count(2)[OF cr] I(2) by (simp add: G)
  show "(2, 2) \<in> existing (g_dungeon (carveDungeon s))" using D(1) by (simp add: G)
qed

lemma carveDungeon_doors:
  assumes "inb (fst c) (snd c)"
  shows "doors (g_dungeon (carveDungeon s) c) (dir_int d) \<longleftrightarrow>
           nbr c d \<in> existing (g_dungeon (carveDungeon s))
         \<and> doors (g_dungeon (carveDungeon s) (nbr c d)) (dir_int (opposite d))"
    and "doors (g_dungeon (carveDungeon s) c) (dir_int d) \<Longrightarrow> c \<in> existing (g_dungeon (carveDungeon s))"
proof -
  obtain t st where cr: "carveRooms (g_dungeon s) (g_rng s) = (t, st)"
    using carveRooms_ex by blast
  note I = carveRooms_inv[OF cr]
  note D = carveInvD[OF I(1)]
  note G = carveDungeon_graph[OF cr]
  note R = carveDungeon_rooms[OF cr]
  have inbE: "inb (fst x) (snd x)" if "x \<in> existing (c_dg st)" for x
    using that by (simp add: existing_def)
  show "doors (g_dungeon (carveDungeon s) c) (dir_int d) \<longleftrightarrow>
           nbr c d \<in> existing (g_dungeon (carveDungeon s))
         \<and> doors (g_dungeon (carveDungeon s) (nbr c d)) (dir_int (opposite d))"
  proof
    assume "doors (g_dungeon (carveDungeon s) c) (dir_int d)"
    then have "doors (c_dg st c) (dir_int d)" using R(2)[OF assms] by simp
    from D(3)[OF assms this] show "nbr c d \<in> existing (g_dungeon (carveDungeon s))
         \<and> doors (g_dungeon (carveDungeon s) (nbr c d)) (dir_int (opposite d))"
      using R(2)[OF inbE, of "nbr c d"] by (simp add: G)
  next
    assume a: "nbr c d \<in> existing (g_dungeon (carveDungeon s))
         \<and> doors (g_dungeon (carveDungeon s) (nbr c d)) (dir_int (opposite d))"
    then have n: "nbr c d \<in> existing (c_dg st)" by (simp add: G)
    then have "doors (c_dg st (nbr c d)) (dir_int (opposite d))"
      using a R(2)[OF inbE[OF n]] by simp
    from D(3)[OF inbE[OF n] this] have "doors (c_dg st c) (dir_int d)"
      by (simp add: nbr_opposite opposite_opposite)
    then show "doors (g_dungeon (carveDungeon s) c) (dir_int d)" using R(2)[OF assms] by simp
  qed
  show "doors (g_dungeon (carveDungeon s) c) (dir_int d) \<Longrightarrow> c \<in> existing (g_dungeon (carveDungeon s))"
    using D(3)[OF assms, of d] R(2)[OF assms] by (simp add: G)
qed

lemma carveDungeon_adj_sym: "sym (adj (g_dungeon (carveDungeon s)))"
proof (rule symI)
  fix a b assume "(a, b) \<in> adj (g_dungeon (carveDungeon s))"
  then obtain d where a: "a \<in> existing (g_dungeon (carveDungeon s))"
    "doors (g_dungeon (carveDungeon s) a) (dir_int d)" "b = nbr a d"
    by (auto simp: adj_def)
  then have "inb (fst a) (snd a)" by (simp add: existing_def)
  from carveDungeon_doors(1)[OF this, of s d] a
  have "b \<in> existing (g_dungeon (carveDungeon s))"
    "doors (g_dungeon (carveDungeon s) b) (dir_int (opposite d))" by simp_all
  moreover have "a = nbr b (opposite d)" using a(3) by (simp add: nbr_opposite)
  ultimately show "(b, a) \<in> adj (g_dungeon (carveDungeon s))"
    unfolding adj_def by blast
qed

lemma first_farthest_cong:
  assumes "\<And>c. c \<in> set cs \<Longrightarrow> exists (dg c) = exists (dg' c)"
  shows "first_farthest dg sx sy cs b \<longleftrightarrow> first_farthest dg' sx sy cs b"
proof -
  have "first_farthest dg2 sx sy cs b" if "first_farthest dg1 sx sy cs b"
    and e: "\<And>c. c \<in> set cs \<Longrightarrow> exists (dg1 c) = exists (dg2 c)" for dg1 dg2
  proof -
    from that(1) obtain pre post where pp: "cs = pre @ b # post" "exists (dg1 b)"
      "\<forall>c \<in> set pre. exists (dg1 c) \<longrightarrow> dist_sq sx sy c < dist_sq sx sy b"
      "\<forall>c \<in> set post. exists (dg1 c) \<longrightarrow> dist_sq sx sy c \<le> dist_sq sx sy b"
      unfolding first_farthest_def by blast
    have "exists (dg2 b)" using pp(1,2) e[of b] by simp
    moreover have "\<forall>c \<in> set pre. exists (dg2 c) \<longrightarrow> dist_sq sx sy c < dist_sq sx sy b"
      using pp(1,3) e by simp
    moreover have "\<forall>c \<in> set post. exists (dg2 c) \<longrightarrow> dist_sq sx sy c \<le> dist_sq sx sy b"
      using pp(1,4) e by simp
    ultimately show ?thesis unfolding first_farthest_def using pp(1) by blast
  qed
  from this[of dg dg'] this[of dg' dg] assms show ?thesis by auto
qed

lemma dist_sq_pos: "c \<noteq> (sx, sy) \<Longrightarrow> 0 < dist_sq sx sy c"
proof -
  assume "c \<noteq> (sx, sy)"
  then have "fst c - sx \<noteq> 0 \<or> snd c - sy \<noteq> 0" by (cases c) auto
  then have "0 < (fst c - sx) * (fst c - sx) + (snd c - sy) * (snd c - sy)"
    by (metis add_pos_nonneg add_nonneg_pos zero_le_square not_less mult_eq_0_iff
        less_le zero_le_square)
  then show ?thesis by (simp add: dist_sq_def Let_def)
qed

lemma carveDungeon_boss:
  "\<exists>b. first_farthest (g_dungeon (carveDungeon s)) 2 2 cells b \<and> b \<noteq> (2, 2)
      \<and> (\<forall>c. inb (fst c) (snd c) \<longrightarrow> (boss (g_dungeon (carveDungeon s) c) \<longleftrightarrow> c = b))"
proof -
  obtain t st where cr: "carveRooms (g_dungeon s) (g_rng s) = (t, st)"
    using carveRooms_ex by blast
  note I = carveRooms_inv[OF cr]
  note D = carveInvD[OF I(1)]
  note G = carveDungeon_graph[OF cr]
  note R = carveDungeon_rooms[OF cr]
  define b where "b = bossScan (c_dg st) 2 2"
  have s2: "(2, 2) \<in> set cells" "exists (c_dg st (2, 2))"
    using D(1) by (simp_all add: set_cells existing_def)
  have ff: "first_farthest (c_dg st) 2 2 cells b"
    unfolding b_def using s2 by (intro bossScan_first_farthest[where dg = "c_dg st"]) simp_all
  have "first_farthest (g_dungeon (carveDungeon s)) 2 2 cells b"
    using ff R(1) by (subst first_farthest_cong[of cells _ "c_dg st"]) (simp_all add: set_cells)
  moreover have "b \<noteq> (2, 2)"
  proof -
    have "\<not> existing (c_dg st) \<subseteq> {(2, 2)}"
    proof
      assume "existing (c_dg st) \<subseteq> {(2, 2)}"
      then have "card (existing (c_dg st)) \<le> card {(2 :: int, 2 :: int)}"
        by (intro card_mono) simp_all
      then show False using carveRooms_count(1)[OF cr] by simp
    qed
    then obtain c where c: "c \<in> existing (c_dg st)" "c \<noteq> (2, 2)" by auto
    then have "c \<in> set cells" "exists (c_dg st c)" by (simp_all add: set_cells existing_def)
    from first_farthest_props(3)[OF ff this] dist_sq_pos[OF c(2)]
    have "0 < dist_sq 2 2 b" by simp
    then show ?thesis by (auto simp: dist_sq_def)
  qed
  moreover have "\<forall>c. inb (fst c) (snd c) \<longrightarrow> (boss (g_dungeon (carveDungeon s) c) \<longleftrightarrow> c = b)"
    using R(3) by (simp add: b_def)
  ultimately show ?thesis by blast
qed

lemma carveDungeon_population:
  "cleared (g_dungeon (carveDungeon s) (2, 2))"
  "enemies (g_dungeon (carveDungeon s) (2, 2)) = []"
  "\<not> boss (g_dungeon (carveDungeon s) (2, 2))"
  "c \<in> existing (g_dungeon (carveDungeon s)) \<Longrightarrow> c \<noteq> (2, 2) \<Longrightarrow>
     (if boss (g_dungeon (carveDungeon s) c) then length (enemies (g_dungeon (carveDungeon s) c)) = 6
      else 2 \<le> length (enemies (g_dungeon (carveDungeon s) c))
         \<and> length (enemies (g_dungeon (carveDungeon s) c)) \<le> 5)"
  "c \<in> existing (g_dungeon (carveDungeon s)) \<Longrightarrow>
     cleared (g_dungeon (carveDungeon s) c) \<longleftrightarrow> enemies (g_dungeon (carveDungeon s) c) = []"
  "inb (fst c) (snd c) \<Longrightarrow> length (enemies (g_dungeon (carveDungeon s) c)) \<le> 6"
proof -
  obtain t st where cr: "carveRooms (g_dungeon s) (g_rng s) = (t, st)"
    using carveRooms_ex by blast
  note G = carveDungeon_graph[OF cr]
  note R = carveDungeon_rooms[OF cr]
  show "cleared (g_dungeon (carveDungeon s) (2, 2))" "enemies (g_dungeon (carveDungeon s) (2, 2)) = []"
    using R(4)[OF inb_start] by simp_all
  from carveDungeon_boss[of s] show "\<not> boss (g_dungeon (carveDungeon s) (2, 2))"
    using inb_start by auto
  have len: "(if boss (g_dungeon (carveDungeon s) c) then length (enemies (g_dungeon (carveDungeon s) c)) = 6
      else 2 \<le> length (enemies (g_dungeon (carveDungeon s) c))
         \<and> length (enemies (g_dungeon (carveDungeon s) c)) \<le> 5)"
    if c: "c \<in> existing (g_dungeon (carveDungeon s))" "c \<noteq> (2, 2)" for c
  proof -
    have i: "inb (fst c) (snd c)" and e: "exists (c_dg st c)"
      using c(1) unfolding G by (simp_all add: existing_def)
    show ?thesis
      using R(3)[OF i] R(5)[OF i e c(2)] R(6)[OF i e c(2)] by auto
  qed
  then show "c \<in> existing (g_dungeon (carveDungeon s)) \<Longrightarrow> c \<noteq> (2, 2) \<Longrightarrow>
     (if boss (g_dungeon (carveDungeon s) c) then length (enemies (g_dungeon (carveDungeon s) c)) = 6
      else 2 \<le> length (enemies (g_dungeon (carveDungeon s) c))
         \<and> length (enemies (g_dungeon (carveDungeon s) c)) \<le> 5)" .
  show "c \<in> existing (g_dungeon (carveDungeon s)) \<Longrightarrow>
     cleared (g_dungeon (carveDungeon s) c) \<longleftrightarrow> enemies (g_dungeon (carveDungeon s) c) = []"
    using R(7)[of c] unfolding G by (simp add: existing_def)
  show "inb (fst c) (snd c) \<Longrightarrow> length (enemies (g_dungeon (carveDungeon s) c)) \<le> 6"
  proof -
    assume i: "inb (fst c) (snd c)"
    show ?thesis
    proof (cases "c \<in> existing (g_dungeon (carveDungeon s)) \<and> c \<noteq> (2, 2)")
      case True
      then show ?thesis using len[of c] by (auto split: if_splits)
    next
      case False
      then have "enemies (g_dungeon (carveDungeon s) c) = []"
        using R(4)[OF i] R(8)[OF i] i unfolding G by (auto simp: existing_def)
      then show ?thesis by simp
    qed
  qed
qed

subsection \<open>The generator on the seed of the examples\<close>

lemma cells_list: "cells = [(0,0),(1,0),(2,0),(3,0),(4,0),(0,1),(1,1),(2,1),(3,1),(4,1),
  (0,2),(1,2),(2,2),(3,2),(4,2),(0,3),(1,3),(2,3),(3,3),(4,3),(0,4),(1,4),(2,4),(3,4),(4,4)]"
  by (simp add: cells_def upto_rec1)

lemma shuffle_no_draws:
  "shuffle [Up, Right, Down, Left] \<lparr>eng = []\<rparr> = ([Left, Up, Right, Down], \<lparr>eng = []\<rparr>)"
  by (simp add: shuffle_def shuffle_step_def randint_def draw_def swap_def upt_rec)

lemma carveRooms_no_draws:
  "fst (carveRooms dg \<lparr>eng = []\<rparr>) = 6"
  "map (\<lambda>c. exists (c_dg (snd (carveRooms dg \<lparr>eng = []\<rparr>)) c)) cells
     = [True, True, False, False, False,
        True, False, False, False, False,
        True, True, True, False, False,
        False, False, False, False, False,
        False, False, False, False, False]"
  by (simp_all add: carveRooms_def Let_def randint_def draw_def carveLoop.simps carveStep_def
      shuffle_no_draws nbr_def inb_def carve_def cells_list Room0_def)

lemma existing_no_draws:
  "existing (g_dungeon (carveDungeon (initGame [])))
     = {(0, 0), (1, 0), (0, 1), (0, 2), (1, 2), (2, 2)}"
proof -
  obtain t st where cr: "carveRooms (g_dungeon (initGame [])) (g_rng (initGame [])) = (t, st)"
    using carveRooms_ex by blast
  then have st: "st = snd (carveRooms (g_dungeon (initGame [])) \<lparr>eng = []\<rparr>)"
    by (simp add: initGame_def)
  have "existing (c_dg st) = {c \<in> set cells. exists (c_dg st c)}"
    by (auto simp: existing_def set_cells)
  also have "\<dots> = {(0, 0), (1, 0), (0, 1), (0, 2), (1, 2), (2, 2)}"
    using carveRooms_no_draws(2)[of "g_dungeon (initGame [])"]
    unfolding st[symmetric] cells_list by auto
  finally show ?thesis by (simp add: carveDungeon_graph[OF cr])
qed

lemma doors_no_draws:
  "doors (g_dungeon (carveDungeon (initGame [])) (2, 2)) (dir_int Left)"
proof -
  obtain t st where cr: "carveRooms (g_dungeon (initGame [])) (g_rng (initGame [])) = (t, st)"
    using carveRooms_ex by blast
  then have st: "st = snd (carveRooms (g_dungeon (initGame [])) \<lparr>eng = []\<rparr>)"
    by (simp add: initGame_def)
  have "doors (c_dg (snd (carveRooms dg \<lparr>eng = []\<rparr>)) (2, 2)) (dir_int Left)" for dg
    by (simp add: carveRooms_def Let_def randint_def draw_def carveLoop.simps carveStep_def
      shuffle_no_draws nbr_def inb_def carve_def cells_list Room0_def)
  then show ?thesis
    using carveDungeon_rooms(2)[OF cr inb_start] by (simp add: st)
qed

lemma boss_no_draws:
  assumes "inb (fst c) (snd c)"
  shows "boss (g_dungeon (carveDungeon (initGame [])) c) \<longleftrightarrow> c = (0, 0)"
proof -
  let ?dg = "g_dungeon (carveDungeon (initGame []))"
  from carveDungeon_boss[of "initGame []"] obtain b where
    b: "first_farthest ?dg 2 2 cells b" "\<forall>c. inb (fst c) (snd c) \<longrightarrow> (boss (?dg c) \<longleftrightarrow> c = b)"
    by blast
  note P = first_farthest_props[OF b(1)]
  have "b \<in> existing ?dg" using P(1,2) by (simp add: existing_def set_cells)
  then have cand: "b \<in> {(0, 0), (1, 0), (0, 1), (0, 2), (1, 2), (2, 2)}"
    by (simp add: existing_no_draws)
  have "(0, 0) \<in> existing ?dg" by (simp add: existing_no_draws)
  then have "(0, 0) \<in> set cells" "exists (?dg (0, 0))" by (simp_all add: existing_def set_cells)
  from P(3)[OF this] have "8 \<le> dist_sq 2 2 b" by (simp add: dist_sq_def)
  with cand have "b = (0, 0)" by (auto simp: dist_sq_def)
  then show ?thesis using b(2) assms by blast
qed

text \<open>
  Claim C3. For the dungeon \<^verbatim>\<open>carveDungeon\<close> leaves, whatever the state it starts in and
  whatever the random draws: the door connections between the existing rooms form a symmetric
  relation in which every existing room is reached from the start cell and which has no cycle
  (a spanning tree of the existing rooms, rooted at the start cell), and the number of existing
  rooms is at least 1 and at most the requested number \<^verbatim>\<open>targetRooms\<close>, the first
  draw \<^verbatim>\<open>randint(6, 9)\<close>.
\<close>

theorem C3_dungeon_is_tree:
  "connected_from (g_dungeon (carveDungeon s)) (g_startx (carveDungeon s), g_starty (carveDungeon s))
   \<and> sym (adj (g_dungeon (carveDungeon s)))
   \<and> \<not> has_cycle (adj (g_dungeon (carveDungeon s)))
   \<and> 1 \<le> card (existing (g_dungeon (carveDungeon s)))
   \<and> int (card (existing (g_dungeon (carveDungeon s)))) \<le> fst (randint 6 9 (g_rng s))"
  using carveDungeon_tree[of s] carveDungeon_adj_sym[of s]
  by (simp add: carveDungeon_frame)

text \<open>Witness for C3: with an engine whose draws are all 0 the generator asks for 6 rooms and
  carves the cells (2,2), (1,2), (0,2), (0,1), (0,0), (1,0); the last one is reached from the
  start cell.\<close>

theorem C3_dungeon_is_tree_witness:
  "(1, 0) \<in> existing (g_dungeon (carveDungeon (initGame [])))
   \<and> ((2, 2), (1, 0)) \<in> (adj (g_dungeon (carveDungeon (initGame []))))\<^sup>*
   \<and> \<not> has_cycle (adj (g_dungeon (carveDungeon (initGame []))))
   \<and> card (existing (g_dungeon (carveDungeon (initGame [])))) = 6
   \<and> fst (randint 6 9 (g_rng (initGame []))) = 6"
proof -
  have e: "(1, 0) \<in> existing (g_dungeon (carveDungeon (initGame [])))"
    by (simp add: existing_no_draws)
  have c: "card (existing (g_dungeon (carveDungeon (initGame [])))) = 6"
    by (simp add: existing_no_draws)
  have r: "fst (randint 6 9 (g_rng (initGame []))) = 6"
    by (simp add: initGame_def randint_def draw_def)
  show ?thesis
    using C3_dungeon_is_tree[of "initGame []"] e c r
    by (simp add: connected_from_def carveDungeon_frame)
qed

text \<open>
  Claim C5. In the dungeon \<^verbatim>\<open>carveDungeon\<close> leaves, for every cell of the grid and every
  direction: the door bit of the room in that direction is set if and only if the neighbouring
  cell in that direction is inside the grid and holds an existing room whose door bit in the
  opposite direction is set.
\<close>

theorem C5_doors_reciprocal:
  "inb (fst c) (snd c) \<Longrightarrow>
     doors (g_dungeon (carveDungeon s) c) (dir_int d) \<longleftrightarrow>
       nbr c d \<in> existing (g_dungeon (carveDungeon s))
     \<and> doors (g_dungeon (carveDungeon s) (nbr c d)) (dir_int (opposite d))"
  by (rule carveDungeon_doors(1))

text \<open>Witness for C5: with all draws 0 the start room has a door to the left, and the room
  to its left exists and has a door to the right.\<close>

theorem C5_doors_reciprocal_witness:
  "inb (fst (2, 2)) (snd (2, 2))
   \<and> doors (g_dungeon (carveDungeon (initGame [])) (2, 2)) (dir_int Left)
   \<and> (1, 2) \<in> existing (g_dungeon (carveDungeon (initGame [])))
   \<and> doors (g_dungeon (carveDungeon (initGame [])) (1, 2)) (dir_int Right)"
  using C5_doors_reciprocal[of "(2, 2)" "initGame []" Left] doors_no_draws inb_start
  by (simp add: nbr_def)

lemma scenario_scan:
  assumes "\<And>c. inb (fst c) (snd c) \<Longrightarrow>
     exists (dg c) \<longleftrightarrow> c \<in> {(2, 2), (3, 2), (3, 1), (2, 1), (2, 0), (1, 1)}"
  shows "bossScan dg 2 2 = (2, 0)"
proof -
  have e: "exists (dg c) \<longleftrightarrow> c \<in> {(2, 2), (3, 2), (3, 1), (2, 1), (2, 0), (1, 1)}"
    if "c \<in> set cells" for c
    using assms that by (simp add: set_cells)
  have "map (\<lambda>c. exists (dg c)) cells
      = map (\<lambda>c. c \<in> {(2, 2), (3, 2), (3, 1), (2, 1), (2, 0), (1, 1)}) cells"
    using e by simp
  then have "map (\<lambda>c. exists (dg c)) cells
     = [False, False, True, False, False,
        False, True, True, True, False,
        False, False, True, True, False,
        False, False, False, False, False,
        False, False, False, False, False]"
    by (simp add: cells_list)
  then show ?thesis
    by (simp add: bossScan_def cells_list bossStep_def dist_sq_def Let_def)
qed

text \<open>
  Claim C4. In the dungeon \<^verbatim>\<open>carveDungeon\<close> leaves there is one cell \<open>b\<close> of the grid such
  that the rooms of the grid with \<^verbatim>\<open>boss = true\<close> are exactly the room at \<open>b\<close>; that room
  exists, no existing room has a larger squared distance to the start cell, and every existing
  room scanned before it in row-major order has a strictly smaller one. For the scenario: in
  a grid whose existing rooms are (2,2), (3,2), (3,1), (2,1), (2,0), (1,1), with the start cell
  (2,2), the squared distances are 0, 1, 2, 1, 4, 2 and the scan for the boss room ends at (2,0),
  which is where \<^verbatim>\<open>boss\<close> is set.
\<close>

theorem C4_boss_room:
  "(\<exists>b. first_farthest (g_dungeon (carveDungeon s))
           (g_startx (carveDungeon s)) (g_starty (carveDungeon s)) cells b
       \<and> (\<forall>c. inb (fst c) (snd c) \<longrightarrow> (boss (g_dungeon (carveDungeon s) c) \<longleftrightarrow> c = b)))
   \<and> map (dist_sq 2 2) [(2, 2), (3, 2), (3, 1), (2, 1), (2, 0), (1, 1)] = [0, 1, 2, 1, 4, 2]
   \<and> ((\<forall>c. inb (fst c) (snd c) \<longrightarrow>
          (exists (dg c) \<longleftrightarrow> c \<in> {(2, 2), (3, 2), (3, 1), (2, 1), (2, 0), (1, 1)}))
        \<longrightarrow> bossScan dg 2 2 = (2, 0)
          \<and> (\<forall>c. boss (markBoss 2 2 dg c) \<longleftrightarrow> boss (dg c) \<or> c = (2, 0)))"
proof (intro conjI impI)
  show "\<exists>b. first_farthest (g_dungeon (carveDungeon s))
           (g_startx (carveDungeon s)) (g_starty (carveDungeon s)) cells b
       \<and> (\<forall>c. inb (fst c) (snd c) \<longrightarrow> (boss (g_dungeon (carveDungeon s) c) \<longleftrightarrow> c = b))"
    using carveDungeon_boss[of s] by (simp add: carveDungeon_frame) blast
  show "map (dist_sq 2 2) [(2, 2), (3, 2), (3, 1), (2, 1), (2, 0), (1, 1)] = [0, 1, 2, 1, 4, 2]"
    by (simp add: dist_sq_def)
next
  assume a: "\<forall>c. inb (fst c) (snd c) \<longrightarrow>
          (exists (dg c) \<longleftrightarrow> c \<in> {(2, 2), (3, 2), (3, 1), (2, 1), (2, 0), (1, 1)})"
  then show b: "bossScan dg 2 2 = (2, 0)" by (intro scenario_scan) blast
  show "\<forall>c. boss (markBoss 2 2 dg c) \<longleftrightarrow> boss (dg c) \<or> c = (2, 0)"
    by (auto simp: markBoss_cell b)
qed

text \<open>Witness for C4: with all draws 0 the boss room of the generated dungeon is (0,0), at
  squared distance 8 from the start cell; in the grid of the scenario the scan ends at
  (2,0).\<close>

theorem C4_boss_room_witness:
  "boss (g_dungeon (carveDungeon (initGame [])) (0, 0))
   \<and> first_farthest (g_dungeon (carveDungeon (initGame []))) 2 2 cells (0, 0)
   \<and> bossScan scenarioDungeon 2 2 = (2, 0)
   \<and> boss (markBoss 2 2 scenarioDungeon (2, 0))"
proof -
  have i: "inb (fst (0, 0)) (snd (0, 0))" by (simp add: inb_def)
  from C4_boss_room[of "initGame []" scenarioDungeon, THEN conjunct1] obtain b where
    b: "first_farthest (g_dungeon (carveDungeon (initGame []))) 2 2 cells b"
       "\<forall>c. inb (fst c) (snd c) \<longrightarrow> (boss (g_dungeon (carveDungeon (initGame [])) c) \<longleftrightarrow> c = b)"
    by (auto simp: carveDungeon_frame)
  have "b \<in> set cells" using first_farthest_props(1)[OF b(1)] .
  then have "inb (fst b) (snd b)" by (simp add: set_cells)
  then have "b = (0, 0)" using b(2) boss_no_draws[of b] by blast
  then have 1: "boss (g_dungeon (carveDungeon (initGame [])) (0, 0))"
    "first_farthest (g_dungeon (carveDungeon (initGame []))) 2 2 cells (0, 0)"
    using b i by auto
  have "\<forall>c. inb (fst c) (snd c) \<longrightarrow>
          (exists (scenarioDungeon c) \<longleftrightarrow> c \<in> {(2, 2), (3, 2), (3, 1), (2, 1), (2, 0), (1, 1)})"
    by (simp add: scenarioDungeon_def)
  with C4_boss_room[of "initGame []" scenarioDungeon, THEN conjunct2, THEN conjunct2]
  have 2: "bossScan scenarioDungeon 2 2 = (2, 0)" "boss (markBoss 2 2 scenarioDungeon (2, 0))"
    by simp_all
  show ?thesis using 1 2 by simp
qed

text \<open>
  Claim C9. In the dungeon \<^verbatim>\<open>carveDungeon\<close> leaves: the room at the start cell is cleared, has
  no enemies and is not the boss room; every other existing room has exactly 6 enemies if it is
  the boss room and between 2 and 5 enemies otherwise; and the \<^verbatim>\<open>cleared\<close> flag of every existing
  room says whether its list of enemies is empty.
\<close>

theorem C9_population:
  "cleared (g_dungeon (carveDungeon s) (g_startx (carveDungeon s), g_starty (carveDungeon s)))
   \<and> enemies (g_dungeon (carveDungeon s) (g_startx (carveDungeon s), g_starty (carveDungeon s))) = []
   \<and> \<not> boss (g_dungeon (carveDungeon s) (g_startx (carveDungeon s), g_starty (carveDungeon s)))
   \<and> (\<forall>c \<in> existing (g_dungeon (carveDungeon s)).
         c \<noteq> (g_startx (carveDungeon s), g_starty (carveDungeon s)) \<longrightarrow>
           (if boss (g_dungeon (carveDungeon s) c)
            then length (enemies (g_dungeon (carveDungeon s) c)) = 6
            else 2 \<le> length (enemies (g_dungeon (carveDungeon s) c))
               \<and> length (enemies (g_dungeon (carveDungeon s) c)) \<le> 5))
   \<and> (\<forall>c \<in> existing (g_dungeon (carveDungeon s)).
         cleared (g_dungeon (carveDungeon s) c) \<longleftrightarrow> enemies (g_dungeon (carveDungeon s) c) = [])"
  using carveDungeon_population(1-3)[of s] carveDungeon_population(4,5)[where s = s]
  by (simp add: carveDungeon_frame)

text \<open>Witness for C9: with all draws 0 the room (0,0) exists and is the boss room, with 6
  enemies; the room (1,0) exists and is neither the start nor the boss room, with 2 to 5
  enemies; neither of the two is cleared.\<close>

theorem C9_population_witness:
  "(0, 0) \<in> existing (g_dungeon (carveDungeon (initGame [])))
   \<and> (1, 0) \<in> existing (g_dungeon (carveDungeon (initGame [])))
   \<and> cleared (g_dungeon (carveDungeon (initGame [])) (2, 2))
   \<and> length (enemies (g_dungeon (carveDungeon (initGame [])) (0, 0))) = 6
   \<and> 2 \<le> length (enemies (g_dungeon (carveDungeon (initGame [])) (1, 0)))
   \<and> length (enemies (g_dungeon (carveDungeon (initGame [])) (1, 0))) \<le> 5
   \<and> \<not> cleared (g_dungeon (carveDungeon (initGame [])) (0, 0))
   \<and> \<not> cleared (g_dungeon (carveDungeon (initGame [])) (1, 0))"
proof -
  let ?dg = "g_dungeon (carveDungeon (initGame []))"
  note t = C9_population[of "initGame []", unfolded carveDungeon_frame]
  have e: "(0, 0) \<in> existing ?dg" "(1, 0) \<in> existing ?dg" by (simp_all add: existing_no_draws)
  have b: "boss (?dg (0, 0))" "\<not> boss (?dg (1, 0))"
    using boss_no_draws[of "(0, 0)"] boss_no_draws[of "(1, 0)"] by (simp_all add: inb_def)
  have 1: "cleared (?dg (2, 2))" using t by simp
  have 2: "length (enemies (?dg (0, 0))) = 6"
    using t[THEN conjunct2, THEN conjunct2, THEN conjunct2, THEN conjunct1] e(1) b(1) by auto
  have 3: "2 \<le> length (enemies (?dg (1, 0))) \<and> length (enemies (?dg (1, 0))) \<le> 5"
    using t[THEN conjunct2, THEN conjunct2, THEN conjunct2, THEN conjunct1] e(2) b(2) by auto
  have 4: "\<not> cleared (?dg (0, 0))" "\<not> cleared (?dg (1, 0))"
    using t[THEN conjunct2, THEN conjunct2, THEN conjunct2, THEN conjunct2] e 2 3 by auto
  show ?thesis using e 1 2 3 4 by simp
qed

lemma woundedGame_simps:
  "g_runOver woundedGame = False" "hp (g_player woundedGame) = 3"
  by (simp_all add: woundedGame_def lockedGame_simps)

text \<open>
  Claim C2, as amended. The restart key is read only when the run is over: in a running game
  (and with the quit key up) \<^verbatim>\<open>frameInput\<close> leaves the state as it is. When the run is over,
  the restart key (with the quit key up) runs \<^verbatim>\<open>resetRun\<close>: the dungeon is the one
  \<^verbatim>\<open>carveDungeon\<close> generates, whose existing rooms are connected to the start cell by doors
  without a cycle, the room cursor is at the start cell, the start room is cleared, the
  player has 6 hp, the hp of a new player, and the run is Active.
\<close>

theorem C2_restart_when_run_over:
  "(g_runOver s \<and> keys VK_R \<and> \<not> keys VK_ESCAPE \<longrightarrow>
       g_dungeon (frameInput keys s) = g_dungeon (carveDungeon s)
     \<and> connected_from (g_dungeon (frameInput keys s))
          (g_startx (frameInput keys s), g_starty (frameInput keys s))
     \<and> \<not> has_cycle (adj (g_dungeon (frameInput keys s)))
     \<and> g_rx (frameInput keys s) = g_startx (frameInput keys s)
     \<and> g_ry (frameInput keys s) = g_starty (frameInput keys s)
     \<and> cleared (g_dungeon (frameInput keys s)
          (g_startx (frameInput keys s), g_starty (frameInput keys s)))
     \<and> hp (g_player (frameInput keys s)) = hp Player0
     \<and> hp (g_player (frameInput keys s)) = 6
     \<and> runState (frameInput keys s) = Active)
   \<and> (\<not> g_runOver s \<and> \<not> keys VK_ESCAPE \<longrightarrow> frameInput keys s = s)"
proof (intro conjI impI)
  assume "\<not> g_runOver s \<and> \<not> keys VK_ESCAPE"
  then show "frameInput keys s = s" by (simp add: frameInput_def)
next
  assume "g_runOver s \<and> keys VK_R \<and> \<not> keys VK_ESCAPE"
  then have f: "frameInput keys s = resetRun s" by (simp add: frameInput_def)
  show "g_dungeon (frameInput keys s) = g_dungeon (carveDungeon s)"
    "g_rx (frameInput keys s) = g_startx (frameInput keys s)"
    "g_ry (frameInput keys s) = g_starty (frameInput keys s)"
    "hp (g_player (frameInput keys s)) = hp Player0"
    "hp (g_player (frameInput keys s)) = 6"
    "runState (frameInput keys s) = Active"
    by (simp_all add: f resetRun_fields runState_def Player0_def)
  show "connected_from (g_dungeon (frameInput keys s))
          (g_startx (frameInput keys s), g_starty (frameInput keys s))"
    "\<not> has_cycle (adj (g_dungeon (frameInput keys s)))"
    using carveDungeon_tree(1,2)[of s] by (simp_all add: f resetRun_fields)
  show "cleared (g_dungeon (frameInput keys s)
          (g_startx (frameInput keys s), g_starty (frameInput keys s)))"
    using carveDungeon_population(1)[of s] by (simp add: f resetRun_fields)
qed

text \<open>Witness for C2: the restart key in a finished run of a player with 3 hp, and in a
  running game.\<close>

theorem C2_restart_when_run_over_witness:
  "runState (woundedGame\<lparr>g_runOver := True\<rparr>) = Cleared
   \<and> runState (frameInput (\<lambda>k. k = VK_R) (woundedGame\<lparr>g_runOver := True\<rparr>)) = Active
   \<and> hp (g_player (frameInput (\<lambda>k. k = VK_R) (woundedGame\<lparr>g_runOver := True\<rparr>))) = 6
   \<and> cleared (g_dungeon (frameInput (\<lambda>k. k = VK_R) (woundedGame\<lparr>g_runOver := True\<rparr>)) (2, 2))
   \<and> frameInput (\<lambda>k. k = VK_R) woundedGame = woundedGame"
  using C2_restart_when_run_over[of "woundedGame\<lparr>g_runOver := True\<rparr>" "\<lambda>k. k = VK_R"]
    C2_restart_when_run_over[of woundedGame "\<lambda>k. k = VK_R"]
  by (simp add: woundedGame_simps runState_def frameInput_def resetRun_fields)

text \<open>Counterexample to C2 as stated: in a running game with a player of 3 hp the restart key
  changes nothing; the run is not restarted and the player keeps 3 hp.\<close>

theorem C2_restart_ignored_counterexample:
  "runState woundedGame = Active
   \<and> frameInput (\<lambda>k. k = VK_R) woundedGame = woundedGame
   \<and> hp (g_player (frameInput (\<lambda>k. k = VK_R) woundedGame)) = 3"
  by (simp add: runState_def frameInput_def woundedGame_simps)

lemma handleDoors_cursor_inb:
  "inb (g_rx s) (g_ry s) \<Longrightarrow>
     inb (g_rx (handleDoorsAndTransitions c s)) (g_ry (handleDoorsAndTransitions c s))"
  by (auto simp: handleDoorsAndTransitions_def Let_def tryGo_def inb_def split: prod.splits if_splits)

lemma tick_alive:
  "\<not> g_runOver (tick keys s) \<Longrightarrow> \<not> g_runOver s \<Longrightarrow> 1 \<le> hp (g_player (tick keys s))"
  by (auto simp: tick_def Let_def split: if_splits)

lemma tick_runOver_mono: "g_runOver s \<Longrightarrow> tick keys s = s"
  by (simp add: tick_def)

lemma gameInvD:
  assumes "gameInv s"
  shows "\<not> g_runOver s \<Longrightarrow> 1 \<le> hp (g_player s)"
    and "inb (g_rx s) (g_ry s)"
    and "\<And>c. inb (fst c) (snd c) \<Longrightarrow> length (enemies (g_dungeon s c)) \<le> 6"
  using assms unfolding gameInv_def by blast+

lemma gameInv_running: "gameInv (s\<lparr>g_running := b\<rparr>) = gameInv s"
  by (simp add: gameInv_def)

lemma gameInv_tick: "gameInv s \<Longrightarrow> gameInv (tick keys s)"
proof (cases "g_runOver s")
  case True
  then show "gameInv s \<Longrightarrow> gameInv (tick keys s)" by (simp add: tick_runOver_mono)
next
  case False
  assume inv: "gameInv s"
  have 1: "\<not> g_runOver (tick keys s) \<longrightarrow> 1 \<le> hp (g_player (tick keys s))"
    using tick_alive[OF _ False] by blast
  have "inb (g_rx (playerHitCheck (g_rx s, g_ry s) DT (beforeHit keys s)))
            (g_ry (playerHitCheck (g_rx s, g_ry s) DT (beforeHit keys s)))"
    using gameInvD(2)[OF inv] by (simp add: playerHitCheck_frame beforeHit_frame)
  then have 2: "inb (g_rx (tick keys s)) (g_ry (tick keys s))"
    unfolding tick_cursor[OF False] by (rule handleDoors_cursor_inb)
  have 3: "length (enemies (g_dungeon (tick keys s) c)) \<le> 6" if "inb (fst c) (snd c)" for c
  proof -
    have "length (enemies (g_dungeon (tick keys s) c)) \<le> length (enemies (g_dungeon s c))"
      unfolding tick_dungeon[OF False] by (rule beforeHit_enemies_length)
    moreover have "length (enemies (g_dungeon s c)) \<le> 6"
      using gameInvD(3)[OF inv that] .
    ultimately show ?thesis by simp
  qed
  show "gameInv (tick keys s)" unfolding gameInv_def using 1 2 3 by blast
qed

lemma gameInv_resetRun: "gameInv (resetRun s)"
  unfolding gameInv_def
  using carveDungeon_population(6)[where s = s]
  by (simp add: resetRun_fields Player0_def inb_def)

lemma gameInv_frameInput: "gameInv s \<Longrightarrow> gameInv (frameInput keys s)"
  by (simp add: frameInput_def gameInv_resetRun gameInv_running)

lemma reachable_gameInv: "reachable s \<Longrightarrow> gameInv s"
  by (induction rule: reachable.induct)
    (simp_all add: gameInv_resetRun gameInv_frameInput gameInv_tick)

lemma tick_runOver:
  "\<not> g_runOver s \<Longrightarrow> hp (g_player (tick keys s)) \<le> 0 \<Longrightarrow> g_runOver (tick keys s)"
  by (auto simp: tick_def Let_def split: if_splits)

text \<open>
  Claim C6. In every state the program reaches in which the run is Active, one tick does not
  raise the player's hp, lowers it by at most 1 and not below 0, and a tick that ends with
  hp 0 ends with the run state Dead.
\<close>

theorem C6_hp_monotone:
  assumes "reachable s" and "runState s = Active"
  shows "hp (g_player (tick keys s)) \<le> hp (g_player s)
       \<and> hp (g_player s) - 1 \<le> hp (g_player (tick keys s))
       \<and> 0 \<le> hp (g_player (tick keys s))
       \<and> (hp (g_player (tick keys s)) = 0 \<longrightarrow> runState (tick keys s) = Dead)"
proof -
  have act: "\<not> g_runOver s" using assms(2) by (simp add: runState_def split: if_splits)
  have inv: "gameInv s" using assms(1) by (rule reachable_gameInv)
  have hp1: "1 \<le> hp (g_player s)" and cur: "inb (g_rx s) (g_ry s)"
    and len: "length (enemies (g_dungeon s (g_rx s, g_ry s))) \<le> 6"
    using gameInvD[OF inv] act by (simp_all add: inb_def)
  define es where "es = enemies (g_dungeon (beforeHit keys s) (g_rx s, g_ry s))"
  have "length es \<le> length (enemies (g_dungeon s (g_rx s, g_ry s)))"
    unfolding es_def by (rule beforeHit_enemies_length)
  then have "length es \<le> 108" using len by simp
  from hit_loop_hp_bounds[OF this, of "beforeHit keys s"]
  have b: "hp (g_player s) - 1 \<le> hp (g_player (tick keys s))"
    "hp (g_player (tick keys s)) \<le> hp (g_player s)"
    by (simp_all add: tick_hp_timer[OF act] playerHitCheck_def es_def beforeHit_frame)
  have d: "runState (tick keys s) = Dead" if "hp (g_player (tick keys s)) = 0"
    using tick_runOver[OF act, of keys] that by (simp add: runState_def)
  show ?thesis using b hp1 d by auto
qed

text \<open>Witness for C6: the state after the first \<^verbatim>\<open>resetRun\<close>, with all draws 0, is reached and
  Active.\<close>

theorem C6_hp_monotone_witness:
  "reachable (resetRun (initGame [])) \<and> runState (resetRun (initGame [])) = Active
   \<and> hp (g_player (resetRun (initGame []))) = 6
   \<and> hp (g_player (tick idle (resetRun (initGame [])))) \<le> 6
   \<and> 5 \<le> hp (g_player (tick idle (resetRun (initGame []))))"
proof -
  have r: "reachable (resetRun (initGame []))" by (rule reachable.init)
  have a: "runState (resetRun (initGame [])) = Active"
    by (simp add: runState_def resetRun_fields)
  show ?thesis
    using C6_hp_monotone[OF r a, of idle] r a by (simp add: resetRun_fields Player0_def)
qed

lemma enemyMove_dead: "e_dead (enemyMove pp dt e) = e_dead e"
  by (simp add: enemyMove_def Let_def)

lemma live_after_move:
  "filter (\<lambda>e. \<not> e_dead e) (map (enemyMove pp dt) es)
     = map (enemyMove pp dt) (filter (\<lambda>e. \<not> e_dead e) es)"
  by (induction es) (simp_all add: enemyMove_dead)

lemma beforeHit_cursor_room:
  "length (enemies (g_dungeon (beforeHit keys s) (g_rx s, g_ry s)))
     = length (filter (\<lambda>e. \<not> e_dead e) (enemies (g_dungeon s (g_rx s, g_ry s))))"
  "cleared (g_dungeon (beforeHit keys s) (g_rx s, g_ry s)) \<longleftrightarrow>
     cleared (g_dungeon s (g_rx s, g_ry s))
     \<or> (\<forall>e \<in> set (enemies (g_dungeon s (g_rx s, g_ry s))). e_dead e)"
proof -
  define s3 where "s3 = (let s2 = playerShootInput keys (playerUpdateMove keys DT s) in
      if shotCooldown (g_player s2) > 0
      then s2\<lparr>g_player := (g_player s2)\<lparr>shotCooldown := shotCooldown (g_player s2) - DT\<rparr>\<rparr>
      else s2)"
  have bh: "beforeHit keys s
      = updateBullets (g_rx s, g_ry s) DT (updateEnemies (g_rx s, g_ry s) DT s3)"
    by (simp add: beforeHit_def s3_def Let_def)
  have dg: "g_dungeon s3 = g_dungeon s"
    by (simp add: s3_def Let_def playerShootInput_frame playerUpdateMove_frame)
  show "length (enemies (g_dungeon (beforeHit keys s) (g_rx s, g_ry s)))
     = length (filter (\<lambda>e. \<not> e_dead e) (enemies (g_dungeon s (g_rx s, g_ry s))))"
    by (simp add: bh updateBullets_enemies bulletsLoop_length updateEnemies_room dg
        live_after_move)
  have "filter (\<lambda>e. \<not> e_dead e) es = [] \<longleftrightarrow> (\<forall>e \<in> set es. e_dead e)" for es :: "Enemy list"
    by (auto simp: filter_empty_conv)
  then show "cleared (g_dungeon (beforeHit keys s) (g_rx s, g_ry s)) \<longleftrightarrow>
     cleared (g_dungeon s (g_rx s, g_ry s))
     \<or> (\<forall>e \<in> set (enemies (g_dungeon s (g_rx s, g_ry s))). e_dead e)"
    by (simp add: bh updateBullets_frame updateEnemies_room dg live_after_move)
qed

lemma tick_cursor_locked:
  assumes "\<not> g_runOver s" and "\<not> cleared (g_dungeon (tick keys s) (g_rx s, g_ry s))"
  shows "g_rx (tick keys s) = g_rx s" and "g_ry (tick keys s) = g_ry s"
proof -
  define s6 where "s6 = playerHitCheck (g_rx s, g_ry s) DT (beforeHit keys s)"
  have "\<not> cleared (g_dungeon s6 (g_rx s, g_ry s))"
    using assms(2) by (simp add: tick_dungeon[OF assms(1)] s6_def playerHitCheck_frame)
  then have "handleDoorsAndTransitions (g_rx s, g_ry s) s6 = s6"
    by (simp add: handleDoorsAndTransitions_def)
  then show "g_rx (tick keys s) = g_rx s" "g_ry (tick keys s) = g_ry s"
    by (simp_all add: tick_cursor[OF assms(1)] s6_def[symmetric])
      (simp_all add: s6_def playerHitCheck_frame beforeHit_frame)
qed

lemma clearedStep_fold:
  "fold (clearedStep dg) cs (any, allclear)
     = (any \<or> (\<exists>c \<in> set cs. exists (dg c)),
        allclear \<and> (\<forall>c \<in> set cs. exists (dg c) \<longrightarrow> cleared (dg c)))"
  by (induction cs arbitrary: any allclear) (auto simp: clearedStep_def)

lemma checkAllCleared_flags:
  "g_allCleared (checkAllCleared s) \<longleftrightarrow>
     (\<exists>c \<in> set cells. exists (g_dungeon s c))
   \<and> (\<forall>c \<in> set cells. exists (g_dungeon s c) \<longrightarrow> cleared (g_dungeon s c))"
  "g_runOver (checkAllCleared s) \<longleftrightarrow> g_runOver s \<or> g_allCleared (checkAllCleared s)"
  by (auto simp: checkAllCleared_def clearedStep_fold Let_def)

lemma hitStep_runOver:
  "(g_runOver s \<longrightarrow> hp (g_player s) \<le> 0) \<Longrightarrow>
     (g_runOver (hitStep dt e s) \<longrightarrow> hp (g_player (hitStep dt e s)) \<le> 0)"
  by (auto simp: hitStep_def Let_def hurt_fields)

lemma hit_loop_runOver:
  "(g_runOver s \<longrightarrow> hp (g_player s) \<le> 0) \<Longrightarrow>
     (g_runOver (fold (hitStep dt) es s) \<longrightarrow> hp (g_player (fold (hitStep dt) es s)) \<le> 0)"
proof (induction es arbitrary: s)
  case Nil
  then show ?case by simp
next
  case (Cons e es)
  from Cons.IH[OF hitStep_runOver[OF Cons.prems, of dt e]] show ?case by simp
qed

lemma tick_flags:
  assumes "\<not> g_runOver s"
  shows "g_allCleared (tick keys s) \<longleftrightarrow>
     (\<exists>c \<in> set cells. exists (g_dungeon (tick keys s) c))
   \<and> (\<forall>c \<in> set cells. exists (g_dungeon (tick keys s) c) \<longrightarrow> cleared (g_dungeon (tick keys s) c))"
    and "g_runOver (tick keys s) \<longleftrightarrow> hp (g_player (tick keys s)) \<le> 0 \<or> g_allCleared (tick keys s)"
proof -
  define s6 where "s6 = playerHitCheck (g_rx s, g_ry s) DT (beforeHit keys s)"
  define s7 where "s7 = handleDoorsAndTransitions (g_rx s, g_ry s) s6"
  define s8 where "s8 = checkAllCleared s7"
  have t: "tick keys s = (if hp (g_player s8) \<le> 0 then s8\<lparr>g_runOver := True\<rparr> else s8)"
    using assms by (simp add: tick_def Let_def s6_def s7_def s8_def)
  have dg: "g_dungeon (tick keys s) = g_dungeon s7"
    by (simp add: t s8_def checkAllCleared_frame)
  have ac: "g_allCleared (tick keys s) = g_allCleared s8" by (simp add: t)
  show "g_allCleared (tick keys s) \<longleftrightarrow>
     (\<exists>c \<in> set cells. exists (g_dungeon (tick keys s) c))
   \<and> (\<forall>c \<in> set cells. exists (g_dungeon (tick keys s) c) \<longrightarrow> cleared (g_dungeon (tick keys s) c))"
    unfolding dg ac s8_def by (rule checkAllCleared_flags(1))
  have "g_runOver s6 \<longrightarrow> hp (g_player s6) \<le> 0"
    unfolding s6_def playerHitCheck_def using assms
    by (intro hit_loop_runOver) (simp add: beforeHit_frame)
  then have "g_runOver s7 \<longrightarrow> hp (g_player s8) \<le> 0"
    by (simp add: s7_def s8_def handleDoors_frame checkAllCleared_frame)
  then show "g_runOver (tick keys s) \<longleftrightarrow> hp (g_player (tick keys s)) \<le> 0 \<or> g_allCleared (tick keys s)"
    using checkAllCleared_flags(2)[of s7] by (auto simp: t s8_def[symmetric])
qed

lemma lastShotGame_simps:
  "g_dungeon lastShotGame (2, 2) = Room0\<lparr>exists := True, doors := (\<lambda>i. i = dir_int Up),
                         enemies := [Enemy0\<lparr>e_p := mkVec 480 350, e_hp := 1\<rparr>]\<rparr>"
  "g_dungeon lastShotGame (2, 1) = Room0\<lparr>exists := True, doors := (\<lambda>i. i = dir_int Down),
                         enemies := [Enemy0\<lparr>e_p := mkVec 300 200\<rparr>]\<rparr>"
  "g_player lastShotGame = Player0\<lparr>pl_p := mkVec 480 102,
         shots := [Bullet0\<lparr>b_p := mkVec 480 353, b_v := mkVec 0 (- 360), b_r := 5,
                           b_ttl := 1 / 2\<rparr>]\<rparr>"
  "g_rx lastShotGame = 2" "g_ry lastShotGame = 2" "g_runOver lastShotGame = False"
  "g_allCleared lastShotGame = False"
  by (simp_all add: lastShotGame_def initGame_def)

lemma afterShotGame_simps:
  "g_dungeon afterShotGame (2, 2) = Room0\<lparr>exists := True, doors := (\<lambda>i. i = dir_int Up),
     enemies := [Enemy0\<lparr>e_p := mkVec 480 (350 - 55 / 120), e_hp := 0, e_dead := True\<rparr>]\<rparr>"
  "g_dungeon afterShotGame (2, 1) = Room0\<lparr>exists := True, doors := (\<lambda>i. i = dir_int Down),
                         enemies := [Enemy0\<lparr>e_p := mkVec 300 200\<rparr>]\<rparr>"
  "g_player afterShotGame = Player0\<lparr>pl_p := mkVec 480 102\<rparr>"
  "g_rx afterShotGame = 2" "g_ry afterShotGame = 2" "g_runOver afterShotGame = False"
  "g_allCleared afterShotGame = False"
  by (simp_all add: afterShotGame_def lastShotGame_simps Player0_def)

lemma em3:
  "enemyMove (mkVec 480 102) DT (Enemy0\<lparr>e_p := mkVec 480 350, e_hp := 1\<rparr>)
     = Enemy0\<lparr>e_p := mkVec 480 (350 - 55 / 120), e_hp := 1\<rparr>"
  by (simp add: enemyMove_def Let_def Enemy0_def vec_defs)

lemma shot3:
  "bulletsLoop DT [Bullet0\<lparr>b_p := mkVec 480 353, b_v := mkVec 0 (- 360), b_r := 5, b_ttl := 1 / 2\<rparr>]
      [Enemy0\<lparr>e_p := mkVec 480 (350 - 55 / 120), e_hp := 1\<rparr>]
     = ([Bullet0\<lparr>b_p := mkVec 480 350, b_v := mkVec 0 (- 360), b_r := 5, b_ttl := 1 / 2 - DT,
                   b_dead := True\<rparr>],
        [Enemy0\<lparr>e_p := mkVec 480 (350 - 55 / 120), e_hp := 0, e_dead := True\<rparr>])"
  by (simp add: bulletStep_def Let_def Bullet0_def Enemy0_def vec_defs)

lemma updateBullets_eval:
  assumes "bulletsLoop dt bs es = (bs', es')"
    and "shots (g_player s) = bs" and "enemies (g_dungeon s c) = es"
  shows "updateBullets c dt s
     = s\<lparr>g_dungeon := (g_dungeon s)(c := (g_dungeon s c)\<lparr>enemies := es'\<rparr>),
          g_player := (g_player s)\<lparr>shots := filter (\<lambda>b. \<not> b_dead b) bs'\<rparr>\<rparr>"
  using assms by (simp add: updateBullets_def Let_def)

lemma beforeHit_lastShotGame: "beforeHit idle lastShotGame = afterShotGame"
proof -
  have "beforeHit idle lastShotGame
      = updateBullets (2, 2) DT (updateEnemies (2, 2) DT lastShotGame)"
    by (subst beforeHit_idle) (simp_all add: lastShotGame_simps Player0_def mkVec_def)
  also have "updateEnemies (2, 2) DT lastShotGame
     = lastShotGame\<lparr>g_dungeon := (g_dungeon lastShotGame)((2, 2) := (g_dungeon lastShotGame (2, 2))
         \<lparr>enemies := [Enemy0\<lparr>e_p := mkVec 480 (350 - 55 / 120), e_hp := 1\<rparr>]\<rparr>)\<rparr>"
    unfolding updateEnemies_def Let_def
    by (simp add: lastShotGame_simps em3 Player0_def) (simp add: Enemy0_def)
  also have "updateBullets (2, 2) DT \<dots> = afterShotGame"
    by (subst updateBullets_eval[OF shot3])
      (simp_all add: lastShotGame_simps afterShotGame_def Bullet0_def)
  finally show ?thesis .
qed

lemma checkAllCleared_open_room:
  assumes "c \<in> set cells" "exists (g_dungeon s c)" "\<not> cleared (g_dungeon s c)"
    and "\<not> g_allCleared s"
  shows "checkAllCleared s = s"
proof -
  have "\<not> (\<forall>c \<in> set cells. exists (g_dungeon s c) \<longrightarrow> cleared (g_dungeon s c))"
    using assms(1-3) by blast
  then have "checkAllCleared s = s\<lparr>g_allCleared := False\<rparr>"
    by (simp add: checkAllCleared_def clearedStep_fold Let_def)
  also have "\<dots> = s" using assms(4) by (cases s) simp
  finally show ?thesis .
qed

lemma tick_lastShotGame: "tick idle lastShotGame = afterShotGame"
proof -
  have 1: "playerHitCheck (2, 2) DT afterShotGame = afterShotGame"
    by (simp add: playerHitCheck_def afterShotGame_simps hitStep_def)
  have 2: "handleDoorsAndTransitions (2, 2) afterShotGame = afterShotGame"
    by (simp add: handleDoorsAndTransitions_def afterShotGame_simps Room0_def)
  have 3: "checkAllCleared afterShotGame = afterShotGame"
    by (rule checkAllCleared_open_room[of "(2, 2)"])
      (simp_all add: afterShotGame_simps set_cells inb_def Room0_def)
  show ?thesis
    by (simp add: tick_def Let_def lastShotGame_simps beforeHit_lastShotGame 1 2 3)
      (simp add: afterShotGame_simps Player0_def)
qed

lemma tick_afterShotGame:
  "cleared (g_dungeon (tick idle afterShotGame) (2, 2))"
  "g_rx (tick idle afterShotGame) = 2" "g_ry (tick idle afterShotGame) = 1"
proof -
  define A where "A = afterShotGame\<lparr>g_dungeon := (g_dungeon afterShotGame)
      ((2, 2) := (g_dungeon afterShotGame (2, 2))\<lparr>enemies := [], cleared := True\<rparr>)\<rparr>"
  have "beforeHit idle afterShotGame
      = updateBullets (2, 2) DT (updateEnemies (2, 2) DT afterShotGame)"
    by (subst beforeHit_idle) (simp_all add: afterShotGame_simps Player0_def mkVec_def)
  also have "updateEnemies (2, 2) DT afterShotGame = A"
    unfolding updateEnemies_def Let_def A_def
    by (simp add: afterShotGame_simps enemyMove_def)
  also have "updateBullets (2, 2) DT A = A"
    by (rule updateBullets_no_shots) (simp add: A_def afterShotGame_simps Player0_def)
  finally have bh: "beforeHit idle afterShotGame = A" .
  have ph: "playerHitCheck (2, 2) DT A = A"
    by (simp add: playerHitCheck_def A_def afterShotGame_simps)
  have nr: "\<not> g_runOver afterShotGame" by (simp add: afterShotGame_simps)
  show "cleared (g_dungeon (tick idle afterShotGame) (2, 2))"
    by (simp add: tick_dungeon[OF nr] bh A_def)
  have hd: "g_rx (handleDoorsAndTransitions (2, 2) A) = 2 \<and> g_ry (handleDoorsAndTransitions (2, 2) A) = 1"
    by (simp add: handleDoorsAndTransitions_def A_def afterShotGame_simps Room0_def Player0_def
        tryGo_def InflateRect_def circleRectOverlap_def clamp_def mkVec_def)
  show "g_rx (tick idle afterShotGame) = 2" "g_ry (tick idle afterShotGame) = 1"
    using hd by (simp_all add: tick_cursor[OF nr] afterShotGame_simps bh ph)
qed


text \<open>
  Claim C1, as amended. In a tick of a running game the dead enemies are culled and the
  \<^verbatim>\<open>cleared\<close> flag of the current room is recomputed inside the enemy update, before the
  bullets are moved and tested; the door transition is checked after the contact check, and
  the run state after that:

  \<^item> the current room ends the tick with as many enemies as were alive when the tick started:
    the enemies marked dead before the tick are culled, the ones a bullet kills in this tick
    stay in the list, marked dead;
  \<^item> the current room is cleared at the end of the tick if and only if it was cleared before
    or all its enemies were marked dead before the tick: an enemy killed in this tick clears
    the room in the next tick;
  \<^item> the door transition works on the dungeon the tick ends with, so it sees the flag as
    recomputed in this tick, and while the flag is false the room cursor stays;
  \<^item> the run-state checks read the state the tick ends with: \<^verbatim>\<open>g_allCleared\<close> says that the
    grid has an existing room and all of them are cleared, and the run is over exactly when
    the player has no hp left or \<^verbatim>\<open>g_allCleared\<close> holds.
\<close>

theorem C1_tick_order:
  assumes "\<not> g_runOver s"
  shows "length (enemies (g_dungeon (tick keys s) (g_rx s, g_ry s)))
           = length (filter (\<lambda>e. \<not> e_dead e) (enemies (g_dungeon s (g_rx s, g_ry s))))
       \<and> (cleared (g_dungeon (tick keys s) (g_rx s, g_ry s)) \<longleftrightarrow>
            cleared (g_dungeon s (g_rx s, g_ry s))
            \<or> (\<forall>e \<in> set (enemies (g_dungeon s (g_rx s, g_ry s))). e_dead e))
       \<and> g_dungeon (playerHitCheck (g_rx s, g_ry s) DT (beforeHit keys s)) = g_dungeon (tick keys s)
       \<and> g_rx (tick keys s)
            = g_rx (handleDoorsAndTransitions (g_rx s, g_ry s)
                     (playerHitCheck (g_rx s, g_ry s) DT (beforeHit keys s)))
       \<and> g_ry (tick keys s)
            = g_ry (handleDoorsAndTransitions (g_rx s, g_ry s)
                     (playerHitCheck (g_rx s, g_ry s) DT (beforeHit keys s)))
       \<and> (\<not> cleared (g_dungeon (tick keys s) (g_rx s, g_ry s))
            \<longrightarrow> g_rx (tick keys s) = g_rx s \<and> g_ry (tick keys s) = g_ry s)
       \<and> (g_allCleared (tick keys s) \<longleftrightarrow>
            (\<exists>c \<in> set cells. exists (g_dungeon (tick keys s) c))
          \<and> (\<forall>c \<in> set cells. exists (g_dungeon (tick keys s) c)
                \<longrightarrow> cleared (g_dungeon (tick keys s) c)))
       \<and> (g_runOver (tick keys s) \<longleftrightarrow>
            hp (g_player (tick keys s)) \<le> 0 \<or> g_allCleared (tick keys s))"
proof (intro conjI)
  show "length (enemies (g_dungeon (tick keys s) (g_rx s, g_ry s)))
           = length (filter (\<lambda>e. \<not> e_dead e) (enemies (g_dungeon s (g_rx s, g_ry s))))"
    unfolding tick_dungeon[OF assms] by (rule beforeHit_cursor_room(1))
  show "cleared (g_dungeon (tick keys s) (g_rx s, g_ry s)) \<longleftrightarrow>
            cleared (g_dungeon s (g_rx s, g_ry s))
            \<or> (\<forall>e \<in> set (enemies (g_dungeon s (g_rx s, g_ry s))). e_dead e)"
    unfolding tick_dungeon[OF assms] by (rule beforeHit_cursor_room(2))
  show "g_dungeon (playerHitCheck (g_rx s, g_ry s) DT (beforeHit keys s)) = g_dungeon (tick keys s)"
    by (simp add: tick_dungeon[OF assms] playerHitCheck_frame)
  show "g_rx (tick keys s)
            = g_rx (handleDoorsAndTransitions (g_rx s, g_ry s)
                     (playerHitCheck (g_rx s, g_ry s) DT (beforeHit keys s)))"
    by (rule tick_cursor(1)[OF assms])
  show "g_ry (tick keys s)
            = g_ry (handleDoorsAndTransitions (g_rx s, g_ry s)
                     (playerHitCheck (g_rx s, g_ry s) DT (beforeHit keys s)))"
    by (rule tick_cursor(2)[OF assms])
  show "\<not> cleared (g_dungeon (tick keys s) (g_rx s, g_ry s))
            \<longrightarrow> g_rx (tick keys s) = g_rx s \<and> g_ry (tick keys s) = g_ry s"
    using tick_cursor_locked[OF assms] by blast
  show "g_allCleared (tick keys s) \<longleftrightarrow>
            (\<exists>c \<in> set cells. exists (g_dungeon (tick keys s) c))
          \<and> (\<forall>c \<in> set cells. exists (g_dungeon (tick keys s) c)
                \<longrightarrow> cleared (g_dungeon (tick keys s) c))"
    by (rule tick_flags(1)[OF assms])
  show "g_runOver (tick keys s) \<longleftrightarrow>
            hp (g_player (tick keys s)) \<le> 0 \<or> g_allCleared (tick keys s)"
    by (rule tick_flags(2)[OF assms])
qed

text \<open>Witness for C1: the tick in which the bullet kills the last enemy of the room leaves one
  enemy in the list and the room not cleared, with the cursor in place and the run going on;
  the next tick culls the enemy and clears the room.\<close>

theorem C1_tick_order_witness:
  "\<not> g_runOver lastShotGame
   \<and> length (enemies (g_dungeon (tick idle lastShotGame) (2, 2))) = 1
   \<and> \<not> cleared (g_dungeon (tick idle lastShotGame) (2, 2))
   \<and> g_rx (tick idle lastShotGame) = 2 \<and> g_ry (tick idle lastShotGame) = 2
   \<and> \<not> g_runOver (tick idle lastShotGame)
   \<and> length (enemies (g_dungeon (tick idle afterShotGame) (2, 2))) = 0
   \<and> cleared (g_dungeon (tick idle afterShotGame) (2, 2))"
proof -
  have r: "\<not> g_runOver lastShotGame" "\<not> g_runOver afterShotGame"
    by (simp_all add: lastShotGame_simps afterShotGame_simps)
  note a = C1_tick_order[OF r(1), of idle, unfolded lastShotGame_simps]
  note b = C1_tick_order[OF r(2), of idle, unfolded afterShotGame_simps]
  have 1: "length (enemies (g_dungeon (tick idle lastShotGame) (2, 2))) = 1"
    using a[THEN conjunct1] by (simp add: Enemy0_def Room0_def)
  have 2: "\<not> cleared (g_dungeon (tick idle lastShotGame) (2, 2))"
    using a[THEN conjunct2, THEN conjunct1] by (simp add: Enemy0_def Room0_def)
  have 3: "g_rx (tick idle lastShotGame) = 2 \<and> g_ry (tick idle lastShotGame) = 2"
    using a[THEN conjunct2, THEN conjunct2, THEN conjunct2, THEN conjunct2, THEN conjunct2,
        THEN conjunct1] 2 by simp
  have 4: "\<not> g_runOver (tick idle lastShotGame)"
    by (simp add: tick_lastShotGame afterShotGame_simps)
  have 5: "length (enemies (g_dungeon (tick idle afterShotGame) (2, 2))) = 0"
    using b[THEN conjunct1] by (simp add: Enemy0_def Room0_def)
  have 6: "cleared (g_dungeon (tick idle afterShotGame) (2, 2))"
    using b[THEN conjunct2, THEN conjunct1] by (simp add: Enemy0_def Room0_def)
  show ?thesis using r 1 2 3 4 5 6 by simp
qed

text \<open>Counterexample to C1 as stated: the last enemy of the room is alive when the tick starts
  and a bullet kills it in that tick, while the player stands in a door that leads to an
  existing room. When the tick ends the enemy is marked dead, but the room is not cleared and
  the player is still in it; the room is cleared and the player moved on one tick later.\<close>

theorem C1_cleared_next_tick_counterexample:
  "map e_dead (enemies (g_dungeon lastShotGame (2, 2))) = [False]
   \<and> map e_dead (enemies (g_dungeon (tick idle lastShotGame) (2, 2))) = [True]
   \<and> \<not> cleared (g_dungeon (tick idle lastShotGame) (2, 2))
   \<and> g_rx (tick idle lastShotGame) = 2 \<and> g_ry (tick idle lastShotGame) = 2
   \<and> cleared (g_dungeon (tick idle (tick idle lastShotGame)) (2, 2))
   \<and> g_rx (tick idle (tick idle lastShotGame)) = 2
   \<and> g_ry (tick idle (tick idle lastShotGame)) = 1"
  by (simp add: tick_lastShotGame tick_afterShotGame)
    (simp add: lastShotGame_simps afterShotGame_simps Enemy0_def Room0_def)

end
